theory Spec2Isabelle
  imports Complex_Main "HOL-Library.AList" "HOL-Library.Sublist"
begin

section \<open>The offline tour-asset cache (services/tourAssetDownloader.ts)\<close>

text \<open>
  A shallow embedding of the class \<open>TourAssetDownloader\<close>. JavaScript strings are
  modelled as \<open>string\<close>; an optional field (\<open>f?: string\<close>) is a \<open>string option\<close>, and
  a truthiness test \<open>if (f)\<close> on such a field holds when the field is present and not
  the empty string.
\<close>

subsection \<open>Data model (types/api.ts)\<close>

type_synonym url = string
type_synonym path = string

text \<open>
  Only the fields that the downloader reads are kept, next to the identifying ones.
  Field names carry the name of their interface, since several interfaces share
  \<open>thumbnail_url\<close>.
\<close>

record Asset =
  asset_id :: nat
  asset_title :: string
  model_url :: "url option"
  material_urls :: "url list option"
  thumbnail_image_url :: "url option"
  marker_image_url :: "url option"
  audio_url :: "url option"
  video_url :: "url option"

record Task =
  task_id :: nat
  task_title :: string
  task_thumbnail_url :: "url option"
  detailed_img_url :: "url option"

record TourObject =
  object_id :: nat
  object_title :: string
  object_thumbnail_url :: "url option"
  assets :: "Asset list option"
  tasks :: "Task list option"

record TourDetails =
  tour_id :: nat
  tour_title :: string
  tour_thumbnail_url :: "url option"
  objects :: "TourObject list"

subsection \<open>collectAllAssetUrls\<close>

text \<open>\<open>if (f) urls.push(f)\<close>: the elements pushed for one optional field.\<close>

definition push_if :: "url option \<Rightarrow> url list" where
  "push_if f = (case f of None \<Rightarrow> [] | Some u \<Rightarrow> if u \<noteq> [] then [u] else [])"

text \<open>
  \<open>Array.from(new Set(urls))\<close>: a JavaScript Set keeps insertion order, so the
  first occurrence of every element survives.
\<close>

definition Array_from_Set :: "'a list \<Rightarrow> 'a list" where
  "Array_from_Set xs = foldl (\<lambda>seen x. if x \<in> set seen then seen else seen @ [x]) [] xs"

definition asset_urls :: "Asset \<Rightarrow> url list" where
  "asset_urls a =
     push_if (thumbnail_image_url a) @
     push_if (model_url a) @
     (case material_urls a of None \<Rightarrow> [] | Some ms \<Rightarrow> filter (\<lambda>u. u \<noteq> []) ms) @
     push_if (marker_image_url a) @
     push_if (audio_url a) @
     push_if (video_url a)"

definition task_urls :: "Task \<Rightarrow> url list" where
  "task_urls t = push_if (task_thumbnail_url t) @ push_if (detailed_img_url t)"

definition object_urls :: "TourObject \<Rightarrow> url list" where
  "object_urls ob =
     push_if (object_thumbnail_url ob) @
     concat (map asset_urls (case assets ob of None \<Rightarrow> [] | Some xs \<Rightarrow> xs)) @
     concat (map task_urls (case tasks ob of None \<Rightarrow> [] | Some ts \<Rightarrow> ts))"

definition collectAllAssetUrls :: "TourDetails \<Rightarrow> url list" where
  "collectAllAssetUrls tourDetails =
     Array_from_Set
       (push_if (tour_thumbnail_url tourDetails) @
        concat (map object_urls (objects tourDetails)))"

text \<open>
  The specification's reading of the collector's result: the values of all URL-valued
  optional fields that are present in the record.
\<close>

definition asset_fields :: "Asset \<Rightarrow> url set" where
  "asset_fields a =
     set_option (thumbnail_image_url a) \<union> set_option (model_url a) \<union>
     (case material_urls a of None \<Rightarrow> {} | Some ms \<Rightarrow> set ms) \<union>
     set_option (marker_image_url a) \<union> set_option (audio_url a) \<union>
     set_option (video_url a)"

definition task_fields :: "Task \<Rightarrow> url set" where
  "task_fields t = set_option (task_thumbnail_url t) \<union> set_option (detailed_img_url t)"

definition object_fields :: "TourObject \<Rightarrow> url set" where
  "object_fields ob =
     set_option (object_thumbnail_url ob) \<union>
     \<Union> (set (map asset_fields (case assets ob of None \<Rightarrow> [] | Some xs \<Rightarrow> xs))) \<union>
     \<Union> (set (map task_fields (case tasks ob of None \<Rightarrow> [] | Some ts \<Rightarrow> ts)))"

definition present_url_fields :: "TourDetails \<Rightarrow> url set" where
  "present_url_fields tourDetails =
     set_option (tour_thumbnail_url tourDetails) \<union>
     \<Union> (set (map object_fields (objects tourDetails)))"

subsection \<open>Platform and device state\<close>

text \<open>
  The collaborators of the class are parameters of the model. \<open>date_now P k\<close> and
  \<open>math_random P k\<close> are what the \<open>k\<close>-th reading of \<open>Date.now()\<close> (milliseconds since
  the epoch) and of \<open>Math.random()\<close> (its fractional digits in base 36) return;
  \<open>http_status P u\<close> is the status with which a fetch of \<open>u\<close> answers, \<open>None\<close> when the
  request itself rejects; \<open>getTourDetails P\<close> is \<open>apiService.getTourDetails\<close> followed
  by \<open>.data\<close>, \<open>None\<close> when it throws. \<open>Date_getTime P s\<close> is
  \<open>new Date(s).getTime()\<close>, \<open>None\<close> for an invalid date (NaN), and \<open>JSON_parse P s\<close> is
  \<open>None\<close> when \<open>JSON.parse(s)\<close> throws. The tour identifier, a JavaScript number, is
  a natural number, and \<open>downloadedAt\<close> is the string that \<open>toISOString\<close> returns.
\<close>

datatype error =
    FetchError
  | DownloadRejected url
  | DownloadStatus url nat
  | StorageError
  | SyntaxError

record DownloadProgress =
  total_n :: nat
  downloaded :: nat
  currentFile :: string
  percentage :: int

text \<open>
  The object \<open>localAssets\<close> is the list of its own properties, every key once. The
  list is kept in the order in which the properties were created; JavaScript enumerates
  keys that spell an array index before the others, and no statement below depends on
  the order.
\<close>

record CachedTourData =
  tourDetails :: TourDetails
  downloadedAt :: string
  localAssets :: "(url \<times> path) list"

text \<open>
  What a batch does that its caller observes: \<open>Reported p\<close> is a call of the progress
  callback with the argument \<open>p\<close>, and \<open>Attempted u r\<close> is a call \<open>downloadFile(u)\<close>
  that has settled, with the path it returned or the error it threw.
\<close>

datatype event =
    Reported DownloadProgress
  | Attempted url "error + path"

record platform =
  documentDirectory :: string
  date_now :: "nat \<Rightarrow> int"
  math_random :: "nat \<Rightarrow> nat list"
  http_status :: "url \<Rightarrow> nat option"
  getTourDetails :: "nat \<Rightarrow> TourDetails option"
  toISOString :: "int \<Rightarrow> string"
  Date_getTime :: "string \<Rightarrow> int option"
  JSON_stringify :: "CachedTourData \<Rightarrow> string"
  JSON_parse :: "string \<Rightarrow> CachedTourData option"

text \<open>
  The mutable state: the instance's \<open>_cacheInitialized\<close> flag, the file system
  (directories and files by path), the AsyncStorage key-value store (with \<open>storage_up\<close>
  false when its calls reject), the number of clock and random readings taken so far,
  and four traces: the network fetches made, the events of the batches (the progress
  callbacks delivered and the downloads attempted, in the order in which they happened),
  the URLs reported by \<open>console.warn\<close> and the errors reported by \<open>console.error\<close>.
  A batch is given a progress callback, which is the trace: it returns normally. Of the
  file-system calls only \<open>downloadAsync\<close> can reject.
\<close>

record world =
  cacheInitialized :: bool
  dirs :: "path set"
  files :: "path set"
  storage :: "(string \<times> string) list"
  storage_up :: bool
  ticks :: nat
  fetched :: "url list"
  events :: "event list"
  warnings :: "url list"
  errors :: "error list"

subsection \<open>Strings\<close>

definition digit36 :: "nat \<Rightarrow> char" where
  "digit36 n = ''0123456789abcdefghijklmnopqrstuvwxyz'' ! (n mod 36)"

function decimal_of_nat :: "nat \<Rightarrow> string" where
  "decimal_of_nat n =
     (if n < 10 then [digit36 n] else decimal_of_nat (n div 10) @ [digit36 (n mod 10)])"
  by pat_completeness auto
termination
  by (relation "measure id") auto

declare decimal_of_nat.simps [simp del]

text \<open>A template literal \<open>${n}\<close> for an integral number.\<close>

definition decimal_of_int :: "int \<Rightarrow> string" where
  "decimal_of_int i = (if i < 0 then ''-'' @ decimal_of_nat (nat (- i)) else decimal_of_nat (nat i))"

text \<open>\<open>s.split(sep)\<close> for a one-character separator: never the empty array.\<close>

fun split_str :: "char \<Rightarrow> string \<Rightarrow> string list" where
  "split_str sep [] = [[]]"
| "split_str sep (c # cs) =
     (if c = sep then [] # split_str sep cs
      else (case split_str sep cs of [] \<Rightarrow> [[c]] | p # ps \<Rightarrow> (c # p) # ps))"

text \<open>\<open>s.lastIndexOf(c)\<close>: the index of the last occurrence, or -1.\<close>

definition lastIndexOf :: "string \<Rightarrow> char \<Rightarrow> int" where
  "lastIndexOf s c =
     (if c \<in> set s then int (length s) - 1 - int (length (takeWhile (\<lambda>x. x \<noteq> c) (rev s)))
      else - 1)"

text \<open>\<open>Math.random().toString(36).substring(2, 8)\<close>, from the fractional digits.\<close>

definition random_token :: "nat list \<Rightarrow> string" where
  "random_token ds = take 6 (map digit36 ds)"

subsection \<open>File system and key-value store\<close>

definition cacheDir :: "platform \<Rightarrow> path" where
  "cacheDir P = documentDirectory P @ ''tour_cache/''"

definition CACHE_EXPIRY_HOURS :: int where
  "CACHE_EXPIRY_HOURS = 24"

text \<open>\<open>(await FileSystem.getInfoAsync(p)).exists\<close>\<close>

definition path_exists :: "world \<Rightarrow> path \<Rightarrow> bool" where
  "path_exists w p \<longleftrightarrow> p \<in> dirs w \<or> p \<in> files w"

definition makeDirectoryAsync :: "path \<Rightarrow> world \<Rightarrow> world" where
  "makeDirectoryAsync p w = w\<lparr>dirs := insert p (dirs w)\<rparr>"

text \<open>
  \<open>FileSystem.deleteAsync(p)\<close> removes \<open>p\<close> and all it contains; both callers pass a
  directory path that ends in a slash, so containment is being a prefix.
\<close>

definition deleteAsync :: "path \<Rightarrow> world \<Rightarrow> world" where
  "deleteAsync p w =
     w\<lparr>dirs := Set.filter (\<lambda>d. \<not> prefix p d) (dirs w),
       files := Set.filter (\<lambda>f. \<not> prefix p f) (files w)\<rparr>"

definition parent_dir :: "path \<Rightarrow> path" where
  "parent_dir p = rev (dropWhile (\<lambda>c. c \<noteq> CHR ''/'') (rev p))"

text \<open>
  \<open>FileSystem.downloadAsync(u, p)\<close> rejects before any request when the directory of
  \<open>p\<close> does not exist; otherwise it fetches \<open>u\<close> and, unless the request rejects, writes
  the response to \<open>p\<close> and resolves with the status and the file's URI.
\<close>

definition downloadAsync ::
  "platform \<Rightarrow> url \<Rightarrow> path \<Rightarrow> world \<Rightarrow> (error + nat \<times> path) \<times> world" where
  "downloadAsync P u p w =
     (if parent_dir p \<notin> dirs w then (Inl (DownloadRejected u), w)
      else (case http_status P u of
              None \<Rightarrow> (Inl (DownloadRejected u), w\<lparr>fetched := fetched w @ [u]\<rparr>)
            | Some st \<Rightarrow>
                (Inr (st, p), w\<lparr>fetched := fetched w @ [u], files := insert p (files w)\<rparr>)))"

definition getItem :: "string \<Rightarrow> world \<Rightarrow> error + string option" where
  "getItem k w = (if storage_up w then Inr (map_of (storage w) k) else Inl StorageError)"

definition setItem :: "string \<Rightarrow> string \<Rightarrow> world \<Rightarrow> error + world" where
  "setItem k v w =
     (if storage_up w then Inr (w\<lparr>storage := AList.update k v (storage w)\<rparr>)
      else Inl StorageError)"

definition removeItem :: "string \<Rightarrow> world \<Rightarrow> error + world" where
  "removeItem k w =
     (if storage_up w then Inr (w\<lparr>storage := AList.delete k (storage w)\<rparr>)
      else Inl StorageError)"

definition getAllKeys :: "world \<Rightarrow> error + string list" where
  "getAllKeys w = (if storage_up w then Inr (map fst (storage w)) else Inl StorageError)"

definition multiRemove :: "string list \<Rightarrow> world \<Rightarrow> error + world" where
  "multiRemove ks w =
     (if storage_up w then Inr (w\<lparr>storage := filter (\<lambda>kv. fst kv \<notin> set ks) (storage w)\<rparr>)
      else Inl StorageError)"

definition cache_key :: "nat \<Rightarrow> string" where
  "cache_key tourId = ''cached_tour_'' @ decimal_of_nat tourId"

definition console_error :: "error \<Rightarrow> world \<Rightarrow> world" where
  "console_error e w = w\<lparr>errors := errors w @ [e]\<rparr>"

definition console_warn :: "url \<Rightarrow> world \<Rightarrow> world" where
  "console_warn u w = w\<lparr>warnings := warnings w @ [u]\<rparr>"

definition onProgress :: "DownloadProgress \<Rightarrow> world \<Rightarrow> world" where
  "onProgress p w = w\<lparr>events := events w @ [Reported p]\<rparr>"

subsection \<open>Numbers\<close>

text \<open>
  A JavaScript number is an IEEE 754 double, and arithmetic rounds every result to the
  nearest double, a tie going to the double with the even mantissa. A finite double that
  is not negative is modelled by a fraction, a pair of integers: a numerator and a
  positive denominator. \<open>bit_length n\<close> is the number of binary digits of \<open>n\<close>, and
  \<open>floor_log2 p q\<close> the exponent \<open>e\<close> with \<open>2 ^ e \<le> p / q < 2 ^ (e + 1)\<close> of a positive
  quotient. \<open>nearest_double p q\<close> is the double nearest to \<open>p / q\<close>: the quotient is
  scaled by the power of two that leaves 53 binary digits before the point, and rounded
  there to an integer. The quotients that occur are 0 or lie between \<open>1 / 2 ^ 53\<close> and 101, far
  from the subnormal doubles and from the largest one, which are not modelled.
\<close>

type_synonym double = "int \<times> int"

function bit_length :: "int \<Rightarrow> nat" where
  "bit_length n = (if n \<le> 0 then 0 else Suc (bit_length (n div 2)))"
  by pat_completeness auto
termination
  by (relation "measure nat") auto

declare bit_length.simps [simp del]

definition floor_log2 :: "int \<Rightarrow> int \<Rightarrow> int" where
  "floor_log2 p q =
     (let a = bit_length p; b = bit_length q
      in if q * 2 ^ a \<le> p * 2 ^ b then int a - int b else int a - int b - 1)"

text \<open>The integer nearest to \<open>A / B\<close>, the even one of the two at a tie.\<close>

definition round_half_even :: "int \<Rightarrow> int \<Rightarrow> int" where
  "round_half_even A B =
     (let k = A div B; r = A mod B
      in if 2 * r < B then k else if B < 2 * r then k + 1
         else if even k then k else k + 1)"

definition nearest_double :: "int \<Rightarrow> int \<Rightarrow> double" where
  "nearest_double p q =
     (if p = 0 then (0, 1)
      else (let e = floor_log2 p q
            in if e \<le> 52
               then (round_half_even (p * 2 ^ nat (52 - e)) q, 2 ^ nat (52 - e))
               else (round_half_even p (q * 2 ^ nat (e - 52)) * 2 ^ nat (e - 52), 1)))"

text \<open>\<open>d / t\<close> for two integers, and \<open>x * k\<close> for a double and an integer.\<close>

definition Number_div :: "int \<Rightarrow> int \<Rightarrow> double" where
  "Number_div d t = nearest_double d t"

definition Number_times :: "double \<Rightarrow> int \<Rightarrow> double" where
  "Number_times x k = (case x of (a, b) \<Rightarrow> nearest_double (a * k) b)"

text \<open>\<open>Math.round(y)\<close> is \<open>\<lfloor>y + 1/2\<rfloor>\<close>: a half is rounded upwards.\<close>

definition Math_round :: "double \<Rightarrow> int" where
  "Math_round y = (case y of (a, b) \<Rightarrow> (2 * a + b) div (2 * b))"

subsection \<open>The methods of TourAssetDownloader\<close>

definition ensureCacheDirectoryExists :: "platform \<Rightarrow> world \<Rightarrow> world" where
  "ensureCacheDirectoryExists P w =
     (if cacheInitialized w then w
      else (let w1 = (if \<not> path_exists w (cacheDir P) then makeDirectoryAsync (cacheDir P) w
                      else w)
            in w1\<lparr>cacheInitialized := True\<rparr>))"

text \<open>The file name derived from a URL, a timestamp and a random token.\<close>

definition derive_name :: "url \<Rightarrow> int \<Rightarrow> string \<Rightarrow> string" where
  "derive_name u timestamp randomId =
     (let fileName = last (split_str CHR ''/'' u);
          dotIndex = lastIndexOf fileName CHR ''.''
      in if dotIndex > 0
         then take (nat dotIndex) fileName @ ''_'' @ decimal_of_int timestamp @ ''_'' @
              randomId @ drop (nat dotIndex) fileName
         else fileName @ ''_'' @ decimal_of_int timestamp @ ''_'' @ randomId)"

definition getFileNameFromUrl :: "platform \<Rightarrow> url \<Rightarrow> world \<Rightarrow> string \<times> world" where
  "getFileNameFromUrl P u w =
     (derive_name u (date_now P (ticks w)) (random_token (math_random P (ticks w))),
      w\<lparr>ticks := Suc (ticks w)\<rparr>)"

definition downloadFile :: "platform \<Rightarrow> url \<Rightarrow> world \<Rightarrow> (error + path) \<times> world" where
  "downloadFile P u w =
     (let w1 = ensureCacheDirectoryExists P w;
          (fileName, w2) = getFileNameFromUrl P u w1;
          localPath = cacheDir P @ fileName
      in if path_exists w2 localPath then (Inr localPath, w2)
         else (case downloadAsync P u localPath w2 of
                 (Inl e, w3) \<Rightarrow> (Inl e, w3)
               | (Inr (status, uri), w3) \<Rightarrow>
                   if status = 200 then (Inr uri, w3)
                   else (Inl (DownloadStatus u status), w3)))"

text \<open>
  \<open>Math.round((downloaded / total) * 100)\<close>. The two counters are integers below
  \<open>2 ^ 53\<close>, which a double holds exactly. The quotient is rounded to the nearest
  double, the product of that double with 100 is rounded again, and \<open>Math.round\<close> takes
  the result \<open>y\<close> to the integer \<open>\<lfloor>y + 1/2\<rfloor>\<close> without a further rounding. The loop
  only evaluates the expression with a positive \<open>total\<close>, the length of an array, and
  with \<open>downloaded\<close> at most \<open>total\<close>, so no infinity, NaN or subnormal number
  occurs.
\<close>

definition percentage_of :: "nat \<Rightarrow> nat \<Rightarrow> int" where
  "percentage_of d t = Math_round (Number_times (Number_div (int d) (int t)) 100)"

text \<open>
  \<open>obj[k] = v\<close> for a string \<open>v\<close> on an object created by the literal \<open>{}\<close>. The key
  \<open>__proto__\<close> is an accessor that the object inherits from \<open>Object.prototype\<close>; its
  setter ignores a value that is neither an object nor null, so no property is created.
  Any other key becomes an own property, or is overwritten.
\<close>

definition set_property ::
  "string \<Rightarrow> string \<Rightarrow> (string \<times> string) list \<Rightarrow> (string \<times> string) list" where
  "set_property k v obj = (if k = ''__proto__'' then obj else AList.update k v obj)"

text \<open>
  One turn of the loop \<open>for (const url of urlsToDownload)\<close>. The call of
  \<open>downloadFile\<close> enters the events when it has settled, before its result is used.
\<close>

definition download_step ::
  "platform \<Rightarrow> nat \<Rightarrow> url \<Rightarrow> (url \<times> path) list \<times> nat \<times> world \<Rightarrow>
   (url \<times> path) list \<times> nat \<times> world" where
  "download_step P n_total u st =
     (case st of (assets_so_far, n_done, w) \<Rightarrow>
        (let (assets', w') =
               (if u \<noteq> [] then
                  (let (name, w1) = getFileNameFromUrl P u w;
                       w2 = onProgress \<lparr>total_n = n_total, downloaded = n_done,
                              currentFile = name, percentage = percentage_of n_done n_total\<rparr> w1;
                       (r, w3) = downloadFile P u w2;
                       w4 = w3\<lparr>events := events w3 @ [Attempted u r]\<rparr>
                   in (case r of
                         Inr localPath \<Rightarrow> (set_property u localPath assets_so_far, w4)
                       | Inl e \<Rightarrow> (assets_so_far, console_warn u w4)))
                else (assets_so_far, w));
             n_done' = n_done + 1
         in (assets', n_done',
             onProgress \<lparr>total_n = n_total, downloaded = n_done',
               currentFile = (if n_done' < n_total then ''Next file...'' else ''Complete!''),
               percentage = percentage_of n_done' n_total\<rparr> w')))"

fun download_loop ::
  "platform \<Rightarrow> nat \<Rightarrow> url list \<Rightarrow> (url \<times> path) list \<times> nat \<times> world \<Rightarrow>
   (url \<times> path) list \<times> nat \<times> world" where
  "download_loop P n_total [] st = st"
| "download_loop P n_total (u # us) st = download_loop P n_total us (download_step P n_total u st)"

definition downloadTourAssets ::
  "platform \<Rightarrow> nat \<Rightarrow> world \<Rightarrow> (error + CachedTourData) \<times> world" where
  "downloadTourAssets P tourId w =
     (let w1 = ensureCacheDirectoryExists P w in
      case getTourDetails P tourId of
        None \<Rightarrow> (Inl FetchError, console_error FetchError w1)
      | Some details \<Rightarrow>
          (let urlsToDownload = collectAllAssetUrls details;
               n_total = length urlsToDownload;
               w2 = onProgress \<lparr>total_n = n_total, downloaded = 0,
                      currentFile = ''Starting download...'', percentage = 0\<rparr> w1;
               (assets_map, n_done, w3) = download_loop P n_total urlsToDownload ([], 0, w2);
               cachedData = \<lparr>tourDetails = details,
                              downloadedAt = toISOString P (date_now P (ticks w3)),
                              localAssets = assets_map\<rparr>;
               w4 = w3\<lparr>ticks := Suc (ticks w3)\<rparr>
           in (case setItem (cache_key tourId) (JSON_stringify P cachedData) w4 of
                 Inl e \<Rightarrow> (Inl e, console_error e w4)
               | Inr w5 \<Rightarrow> (Inr cachedData, w5))))"

definition isTourCached :: "platform \<Rightarrow> nat \<Rightarrow> world \<Rightarrow> bool \<times> world" where
  "isTourCached P tourId w =
     (case getItem (cache_key tourId) w of
        Inl e \<Rightarrow> (False, console_error e w)
      | Inr None \<Rightarrow> (False, w)
      | Inr (Some cachedDataString) \<Rightarrow>
          if cachedDataString = [] then (False, w)
          else (case JSON_parse P cachedDataString of
                  None \<Rightarrow> (False, console_error SyntaxError w)
                | Some cachedData \<Rightarrow>
                    (case Date_getTime P (downloadedAt cachedData) of
                       None \<Rightarrow> (False, w\<lparr>ticks := Suc (ticks w)\<rparr>)
                     | Some t \<Rightarrow>
                         (date_now P (ticks w) < t + CACHE_EXPIRY_HOURS * 60 * 60 * 1000,
                          w\<lparr>ticks := Suc (ticks w)\<rparr>))))"

definition getCachedTourData ::
  "platform \<Rightarrow> nat \<Rightarrow> world \<Rightarrow> CachedTourData option \<times> world" where
  "getCachedTourData P tourId w =
     (case getItem (cache_key tourId) w of
        Inl e \<Rightarrow> (None, console_error e w)
      | Inr None \<Rightarrow> (None, w)
      | Inr (Some cachedDataString) \<Rightarrow>
          if cachedDataString = [] then (None, w)
          else (case JSON_parse P cachedDataString of
                  None \<Rightarrow> (None, console_error SyntaxError w)
                | Some cachedData \<Rightarrow> (Some cachedData, w)))"

definition clearTourCache :: "platform \<Rightarrow> nat \<Rightarrow> world \<Rightarrow> world" where
  "clearTourCache P tourId w =
     (let w1 = ensureCacheDirectoryExists P w in
      case removeItem (cache_key tourId) w1 of
        Inl e \<Rightarrow> console_error e w1
      | Inr w2 \<Rightarrow>
          (let tourCacheDir = cacheDir P @ ''tour_'' @ decimal_of_nat tourId @ ''/''
           in if path_exists w2 tourCacheDir then deleteAsync tourCacheDir w2 else w2))"

definition clearAllCache :: "platform \<Rightarrow> world \<Rightarrow> world" where
  "clearAllCache P w =
     (let w1 = ensureCacheDirectoryExists P w in
      case getAllKeys w1 of
        Inl e \<Rightarrow> console_error e w1
      | Inr keys \<Rightarrow>
          (let tourCacheKeys = filter (\<lambda>key. prefix ''cached_tour_'' key) keys in
           case multiRemove tourCacheKeys w1 of
             Inl e \<Rightarrow> console_error e w1
           | Inr w2 \<Rightarrow>
               (let w3 = (if path_exists w2 (cacheDir P) then deleteAsync (cacheDir P) w2
                          else w2)
                in ensureCacheDirectoryExists P w3)))"

subsection \<open>Predicates used in the statements\<close>

text \<open>
  \<open>directly_under d p\<close>: the path \<open>p\<close> lies in the directory \<open>d\<close> itself, not in a
  subdirectory of it. \<open>assets_on_disk P w m\<close>: every local path of the mapping \<open>m\<close> lies
  directly in the cache root and exists in the file system of \<open>w\<close>.
\<close>

definition directly_under :: "path \<Rightarrow> path \<Rightarrow> bool" where
  "directly_under d p \<longleftrightarrow> prefix d p \<and> CHR ''/'' \<notin> set (drop (length d) p)"

definition assets_on_disk :: "platform \<Rightarrow> world \<Rightarrow> (url \<times> path) list \<Rightarrow> bool" where
  "assets_on_disk P w m \<longleftrightarrow>
     list_all (\<lambda>e. directly_under (cacheDir P) (snd e) \<and> path_exists w (snd e)) m"

text \<open>
  \<open>file_name_at P c u\<close> is the name that \<open>getFileNameFromUrl\<close> derives for \<open>u\<close> from
  the readings number \<open>c\<close> of the clock and of the random generator, and
  \<open>local_path_at P c u\<close> the local path that \<open>downloadFile\<close> makes of it.
\<close>

definition file_name_at :: "platform \<Rightarrow> nat \<Rightarrow> url \<Rightarrow> string" where
  "file_name_at P c u = derive_name u (date_now P c) (random_token (math_random P c))"

definition local_path_at :: "platform \<Rightarrow> nat \<Rightarrow> url \<Rightarrow> path" where
  "local_path_at P c u = cacheDir P @ file_name_at P c u"

text \<open>
  The events that section 4.3 of the specification asks of the turn number \<open>i\<close> of a
  batch over \<open>n\<close> URLs, for the URL \<open>u\<close> whose download ends with \<open>r\<close>: a report with
  the count \<open>i\<close> and the display name of \<open>u\<close>, the download, and a report with the
  count \<open>i + 1\<close>. A turn takes two readings of the clock and of the random generator,
  the first for the display name and the second for the local path; \<open>c\<close> is the number
  of readings taken before the batch.
\<close>

definition turn_events ::
  "platform \<Rightarrow> nat \<Rightarrow> nat \<Rightarrow> nat \<times> url \<times> (error + path) \<Rightarrow> event list" where
  "turn_events P n c x =
     (case x of (i, u, r) \<Rightarrow>
        [Reported \<lparr>total_n = n, downloaded = i, currentFile = file_name_at P (c + 2 * i) u,
                   percentage = percentage_of i n\<rparr>,
         Attempted u r,
         Reported \<lparr>total_n = n, downloaded = Suc i,
                   currentFile = (if Suc i < n then ''Next file...'' else ''Complete!''),
                   percentage = percentage_of (Suc i) n\<rparr>])"

text \<open>The reports and the downloads among a list of events.\<close>

fun reported :: "event list \<Rightarrow> DownloadProgress list" where
  "reported [] = []"
| "reported (Reported p # es) = p # reported es"
| "reported (Attempted u r # es) = reported es"

fun attempted :: "event list \<Rightarrow> (url \<times> (error + path)) list" where
  "attempted [] = []"
| "attempted (Reported p # es) = attempted es"
| "attempted (Attempted u r # es) = (u, r) # attempted es"

text \<open>
  Of a list of downloads with their outcomes: the URLs that failed, and the successful
  URLs with the path returned for each.
\<close>

fun failures :: "(url \<times> (error + path)) list \<Rightarrow> url list" where
  "failures [] = []"
| "failures ((u, Inl e) # xs) = u # failures xs"
| "failures ((u, Inr p) # xs) = failures xs"

fun successes :: "(url \<times> (error + path)) list \<Rightarrow> (url \<times> path) list" where
  "successes [] = []"
| "successes ((u, Inl e) # xs) = successes xs"
| "successes ((u, Inr p) # xs) = (u, p) # successes xs"

text \<open>
  The outcomes that section 4.2 of the specification asks of the downloads of a batch,
  computed from the platform alone. \<open>expected_outcome P present has_root c u\<close> is the
  outcome of the download of \<open>u\<close> on a device where the paths \<open>present\<close> exist and
  \<open>has_root\<close> tells whether the cache root does, after \<open>c\<close> readings of the clock and
  one more for the display name, together with the paths that exist afterwards: the
  local path derived
  for \<open>u\<close> is returned at once when something exists there; otherwise the URL is
  requested, which is rejected without the root, and the response is written to the
  local path, which is returned when the status is 200. \<open>expected_outcomes\<close> does so for
  the URLs of a batch in turn, and \<open>batch_outcomes P w us\<close> starts it in the state \<open>w\<close>,
  in which the batch first makes sure of the cache root.
\<close>

definition expected_outcome ::
  "platform \<Rightarrow> path set \<Rightarrow> bool \<Rightarrow> nat \<Rightarrow> url \<Rightarrow> (error + path) \<times> path set" where
  "expected_outcome P present has_root c u =
     (let p = local_path_at P (c + 1) u
      in if p \<in> present then (Inr p, present)
         else if \<not> has_root then (Inl (DownloadRejected u), present)
         else (case http_status P u of
                 None \<Rightarrow> (Inl (DownloadRejected u), present)
               | Some st \<Rightarrow>
                   (if st = 200 then Inr p else Inl (DownloadStatus u st), insert p present)))"

fun expected_outcomes ::
  "platform \<Rightarrow> path set \<Rightarrow> bool \<Rightarrow> nat \<Rightarrow> url list \<Rightarrow> (error + path) list" where
  "expected_outcomes P present has_root c [] = []"
| "expected_outcomes P present has_root c (u # us) =
     (case expected_outcome P present has_root c u of
        (r, present') \<Rightarrow> r # expected_outcomes P present' has_root (c + 2) us)"

definition batch_outcomes :: "platform \<Rightarrow> world \<Rightarrow> url list \<Rightarrow> (error + path) list" where
  "batch_outcomes P w us =
     (let w1 = ensureCacheDirectoryExists P w
      in expected_outcomes P (dirs w1 \<union> files w1) (cacheDir P \<in> dirs w1) (ticks w1) us)"

subsection \<open>Concrete inputs\<close>

text \<open>
  A small device and five tour records on which the operations are run. On
  \<open>demo_platform\<close> every fetch answers 200 but the one of \<open>h/a.mp3\<close>, which answers 404;
  the clock reads 50, 51 and so on and, at its readings number 10 and 11, the instants
  23 and 25 hours after 54; the JSON and date functions are stand-ins, defined on the
  strings that occur. \<open>demo_after\<close> is the device after the batch for tour 7 on
  \<open>fresh_world\<close>, and \<open>shared_store\<close> holds the keys of the API service next to two
  cache entries, one of them malformed. \<open>wide_tour\<close> has the 40 material files \<open>h/0\<close> to
  \<open>h/39\<close>, and the thumbnail of \<open>proto_tour\<close> is spelled \<open>__proto__\<close>.
\<close>

definition demo_tour :: TourDetails where
  "demo_tour = \<lparr>tour_id = 7, tour_title = ''Old Town'',
     tour_thumbnail_url = Some ''h/t.png'',
     objects = [\<lparr>object_id = 1, object_title = ''Gate'',
        object_thumbnail_url = Some ''h/t.png'',
        assets = Some [\<lparr>asset_id = 1, asset_title = ''Bell'', model_url = None,
           material_urls = Some [''''], thumbnail_image_url = None, marker_image_url = None,
           audio_url = Some ''h/a.mp3'', video_url = None\<rparr>],
        tasks = None\<rparr>]\<rparr>"

definition trio_tour :: TourDetails where
  "trio_tour = \<lparr>tour_id = 8, tour_title = ''Harbour'',
     tour_thumbnail_url = Some ''h/x'',
     objects = [\<lparr>object_id = 2, object_title = ''Crane'',
        object_thumbnail_url = Some ''h/y'', assets = None,
        tasks = Some [\<lparr>task_id = 1, task_title = ''Sketch'', task_thumbnail_url = Some ''h/x'',
           detailed_img_url = Some ''h/z''\<rparr>]\<rparr>]\<rparr>"

definition blank_tour :: TourDetails where
  "blank_tour = \<lparr>tour_id = 9, tour_title = ''Draft'', tour_thumbnail_url = Some '''',
     objects = []\<rparr>"

definition wide_tour :: TourDetails where
  "wide_tour = \<lparr>tour_id = 40, tour_title = ''Wall'', tour_thumbnail_url = None,
     objects = [\<lparr>object_id = 3, object_title = ''Frieze'', object_thumbnail_url = None,
        assets = Some [\<lparr>asset_id = 2, asset_title = ''Stones'', model_url = None,
           material_urls = Some (map (\<lambda>k. ''h/'' @ decimal_of_nat k) [0 ..< 40]),
           thumbnail_image_url = None, marker_image_url = None, audio_url = None,
           video_url = None\<rparr>],
        tasks = None\<rparr>]\<rparr>"

definition proto_tour :: TourDetails where
  "proto_tour = \<lparr>tour_id = 6, tour_title = ''Mill'', tour_thumbnail_url = Some ''__proto__'',
     objects = []\<rparr>"

definition demo_cached :: CachedTourData where
  "demo_cached = \<lparr>tourDetails = demo_tour, downloadedAt = ''54'',
     localAssets = [(''h/t.png'', ''/d/tour_cache/t_51_112.png'')]\<rparr>"

definition hour :: int where
  "hour = 60 * 60 * 1000"

definition demo_platform :: platform where
  "demo_platform = \<lparr>documentDirectory = ''/d/'',
     date_now = (\<lambda>k. if k < 10 then 50 + int k
                     else if k = 10 then 54 + 23 * hour else 54 + 25 * hour),
     math_random = (\<lambda>k. [k, 1, 2]),
     http_status = (\<lambda>u. if u = ''h/a.mp3'' then Some 404 else Some 200),
     getTourDetails = (\<lambda>i. if i = 7 then Some demo_tour
                           else if i = 8 then Some trio_tour
                           else if i = 40 then Some wide_tour
                           else if i = 6 then Some proto_tour else None),
     toISOString = decimal_of_int,
     Date_getTime = (\<lambda>s. if s = ''54'' then Some 54 else None),
     JSON_stringify = (\<lambda>d. ''{'' @ downloadedAt d @ ''}''),
     JSON_parse = (\<lambda>s. if s = ''{54}'' then Some demo_cached else None)\<rparr>"

definition fresh_world :: world where
  "fresh_world = \<lparr>cacheInitialized = False, dirs = {}, files = {}, storage = [],
     storage_up = True, ticks = 0, fetched = [], events = [], warnings = [], errors = []\<rparr>"

definition demo_after :: world where
  "demo_after = \<lparr>cacheInitialized = True, dirs = {''/d/tour_cache/''},
     files = {''/d/tour_cache/a_53_312.mp3'', ''/d/tour_cache/t_51_112.png''},
     storage = [(''cached_tour_7'', ''{54}'')], storage_up = True,
     ticks = 5, fetched = [''h/t.png'', ''h/a.mp3''],
     events =
       [Reported \<lparr>total_n = 2, downloaded = 0, currentFile = ''Starting download...'',
          percentage = 0\<rparr>,
        Reported \<lparr>total_n = 2, downloaded = 0, currentFile = ''t_50_012.png'', percentage = 0\<rparr>,
        Attempted ''h/t.png'' (Inr ''/d/tour_cache/t_51_112.png''),
        Reported \<lparr>total_n = 2, downloaded = 1, currentFile = ''Next file...'', percentage = 50\<rparr>,
        Reported \<lparr>total_n = 2, downloaded = 1, currentFile = ''a_52_212.mp3'', percentage = 50\<rparr>,
        Attempted ''h/a.mp3'' (Inl (DownloadStatus ''h/a.mp3'' 404)),
        Reported \<lparr>total_n = 2, downloaded = 2, currentFile = ''Complete!'', percentage = 100\<rparr>],
     warnings = [''h/a.mp3''], errors = []\<rparr>"

definition shared_store :: world where
  "shared_store = fresh_world\<lparr>storage := [(''access_token'', ''a''), (''cached_tour_7'', ''{54}''),
     (''refresh_token'', ''r''), (''cached_tour_12'', ''{bad''), (''user'', ''u'')]\<rparr>"

section \<open>Properties of the URL collector\<close>

lemma foldl_seen_set:
  "set (foldl (\<lambda>seen x. if x \<in> set seen then seen else seen @ [x]) acc xs) = set acc \<union> set xs"
  by (induction xs arbitrary: acc) auto

lemma foldl_seen_distinct:
  "distinct acc \<Longrightarrow>
   distinct (foldl (\<lambda>seen x. if x \<in> set seen then seen else seen @ [x]) acc xs)"
  by (induction xs arbitrary: acc) auto

lemma set_Array_from_Set: "set (Array_from_Set xs) = set xs"
  by (simp add: Array_from_Set_def foldl_seen_set)

lemma distinct_Array_from_Set: "distinct (Array_from_Set xs)"
  by (simp add: Array_from_Set_def foldl_seen_distinct)

lemma set_push_if: "set (push_if f) = {u \<in> set_option f. u \<noteq> []}"
  by (cases f) (auto simp: push_if_def)

lemma set_asset_urls: "set (asset_urls a) = {u \<in> asset_fields a. u \<noteq> []}"
  by (cases "material_urls a") (auto simp: asset_urls_def asset_fields_def set_push_if)

lemma set_task_urls: "set (task_urls t) = {u \<in> task_fields t. u \<noteq> []}"
  by (auto simp: task_urls_def task_fields_def set_push_if)

lemma set_object_urls: "set (object_urls ob) = {u \<in> object_fields ob. u \<noteq> []}"
  by (auto simp: object_urls_def object_fields_def set_push_if set_asset_urls set_task_urls)

lemma set_collectAllAssetUrls:
  "set (collectAllAssetUrls t) = {u \<in> present_url_fields t. u \<noteq> []}"
  by (auto simp: collectAllAssetUrls_def present_url_fields_def set_Array_from_Set
      set_push_if set_object_urls)

lemma collectAllAssetUrls_nonempty: "[] \<notin> set (collectAllAssetUrls t)"
  by (simp add: set_collectAllAssetUrls)

lemma distinct_collectAllAssetUrls: "distinct (collectAllAssetUrls t)"
  by (simp add: collectAllAssetUrls_def distinct_Array_from_Set)

section \<open>Derived file names and paths\<close>

lemma digit36_in: "digit36 n \<in> set ''0123456789abcdefghijklmnopqrstuvwxyz''"
  unfolding digit36_def by (rule nth_mem) simp

lemma digit36_not_slash: "digit36 n \<noteq> CHR ''/''"
  using digit36_in [of n] by auto

lemma slash_not_digit36: "CHR ''/'' \<noteq> digit36 n"
  using digit36_not_slash [of n] by simp

lemma slash_notin_decimal_of_nat: "CHR ''/'' \<notin> set (decimal_of_nat n)"
proof (induction n rule: decimal_of_nat.induct)
  case (1 n)
  show ?case
  proof (cases "n < 10")
    case True
    then show ?thesis by (subst decimal_of_nat.simps) (simp add: slash_not_digit36)
  next
    case False
    with 1 show ?thesis by (subst decimal_of_nat.simps) (simp add: slash_not_digit36)
  qed
qed

lemma slash_notin_decimal_of_int: "CHR ''/'' \<notin> set (decimal_of_int i)"
  by (simp add: decimal_of_int_def slash_notin_decimal_of_nat)

lemma slash_notin_random_token: "CHR ''/'' \<notin> set (random_token ds)"
proof
  assume "CHR ''/'' \<in> set (random_token ds)"
  then have "CHR ''/'' \<in> set (map digit36 ds)"
    unfolding random_token_def by (rule in_set_takeD)
  then show False by (auto simp: slash_not_digit36)
qed

lemma split_str_nonempty: "split_str sep s \<noteq> []"
  by (induction s) (auto split: list.splits)

lemma split_str_no_sep: "p \<in> set (split_str sep s) \<Longrightarrow> sep \<notin> set p"
  by (induction s arbitrary: p) (auto split: list.splits if_splits)

lemma slash_notin_last_segment: "CHR ''/'' \<notin> set (last (split_str CHR ''/'' u))"
  using split_str_no_sep [OF last_in_set [OF split_str_nonempty]] .

lemma slash_notin_derive_name:
  assumes "CHR ''/'' \<notin> set randomId"
  shows "CHR ''/'' \<notin> set (derive_name u timestamp randomId)"
proof -
  let ?f = "last (split_str CHR ''/'' u)"
  have f: "CHR ''/'' \<notin> set ?f" by (rule slash_notin_last_segment)
  have t: "CHR ''/'' \<notin> set (take k ?f)" for k using f by (auto dest: in_set_takeD)
  have d: "CHR ''/'' \<notin> set (drop k ?f)" for k using f by (auto dest: in_set_dropD)
  show ?thesis
    using assms f t d by (simp add: derive_name_def Let_def slash_notin_decimal_of_int)
qed

lemma parent_dir_flat:
  assumes "CHR ''/'' \<notin> set name"
  shows "parent_dir (d @ ''/'' @ name) = d @ ''/''"
proof -
  have "dropWhile (\<lambda>c. c \<noteq> CHR ''/'') (rev name @ ''/'' @ rev d) = ''/'' @ rev d"
    using assms by (simp add: dropWhile_append)
  then show ?thesis by (simp add: parent_dir_def)
qed

lemma parent_dir_cacheDir:
  "CHR ''/'' \<notin> set name \<Longrightarrow> parent_dir (cacheDir P @ name) = cacheDir P"
  using parent_dir_flat [of name "documentDirectory P @ ''tour_cache''"]
  by (simp add: cacheDir_def)

lemma directly_under_append: "CHR ''/'' \<notin> set name \<Longrightarrow> directly_under d (d @ name)"
  by (simp add: directly_under_def)

lemma directly_under_not_in_subdir:
  assumes "directly_under d p"
  shows "\<not> prefix (d @ sub @ ''/'') p"
proof
  assume pre: "prefix (d @ sub @ ''/'') p"
  from assms obtain name where p: "p = d @ name" and n: "CHR ''/'' \<notin> set name"
    by (auto simp: directly_under_def prefix_def)
  from pre p have "prefix (sub @ ''/'') name" by simp
  then have "set (sub @ ''/'') \<subseteq> set name" by (rule set_mono_prefix)
  with n show False by auto
qed

section \<open>What the file operations leave unchanged\<close>

lemma ensure_frame [simp]:
  "storage (ensureCacheDirectoryExists P w) = storage w"
  "storage_up (ensureCacheDirectoryExists P w) = storage_up w"
  "ticks (ensureCacheDirectoryExists P w) = ticks w"
  "fetched (ensureCacheDirectoryExists P w) = fetched w"
  "events (ensureCacheDirectoryExists P w) = events w"
  "warnings (ensureCacheDirectoryExists P w) = warnings w"
  "errors (ensureCacheDirectoryExists P w) = errors w"
  "files (ensureCacheDirectoryExists P w) = files w"
  "cacheInitialized (ensureCacheDirectoryExists P w)"
  by (simp_all add: ensureCacheDirectoryExists_def makeDirectoryAsync_def Let_def)

lemma ensure_dirs: "dirs w \<subseteq> dirs (ensureCacheDirectoryExists P w)"
  by (auto simp: ensureCacheDirectoryExists_def makeDirectoryAsync_def Let_def)

lemma ensure_initialized: "cacheInitialized w \<Longrightarrow> ensureCacheDirectoryExists P w = w"
  by (simp add: ensureCacheDirectoryExists_def)

lemma path_exists_mono:
  "path_exists w p \<Longrightarrow> dirs w \<subseteq> dirs w' \<Longrightarrow> files w \<subseteq> files w' \<Longrightarrow> path_exists w' p"
  by (auto simp: path_exists_def)

lemma path_exists_frame [simp]:
  "path_exists (w\<lparr>storage := s\<rparr>) p = path_exists w p"
  "path_exists (console_error e w) p = path_exists w p"
  by (simp_all add: path_exists_def console_error_def)

lemma deleteAsync_keeps:
  "\<not> prefix d p \<Longrightarrow> path_exists (deleteAsync d w) p = path_exists w p"
  by (simp add: deleteAsync_def path_exists_def)

lemma deleteAsync_removes: "\<not> path_exists (deleteAsync d w) d"
  by (simp add: deleteAsync_def path_exists_def)

lemma getFileName_frame:
  assumes "getFileNameFromUrl P u w = (name, w')"
  shows "w' = w\<lparr>ticks := Suc (ticks w)\<rparr>"
    and "CHR ''/'' \<notin> set name"
  using assms by (auto simp: getFileNameFromUrl_def slash_notin_derive_name slash_notin_random_token)

lemma downloadAsync_frame:
  assumes "downloadAsync P u p w = (r, w')"
  shows "storage w' = storage w" "storage_up w' = storage_up w" "events w' = events w"
    "warnings w' = warnings w" "errors w' = errors w" "dirs w' = dirs w"
    "files w \<subseteq> files w'" "ticks w' = ticks w" "cacheInitialized w' = cacheInitialized w"
  using assms by (auto simp: downloadAsync_def split: if_splits option.splits)

lemma downloadAsync_ok:
  assumes "downloadAsync P u p w = (Inr (st, uri), w')"
  shows "uri = p" "p \<in> files w'"
  using assms by (auto simp: downloadAsync_def split: if_splits option.splits)

lemma downloadFile_frame:
  assumes "downloadFile P u w = (r, w')"
  shows "storage w' = storage w" "storage_up w' = storage_up w" "events w' = events w"
    "warnings w' = warnings w" "errors w' = errors w" "dirs w \<subseteq> dirs w'"
    "files w \<subseteq> files w'" "ticks w' = Suc (ticks w)"
proof -
  obtain name w2 where g: "getFileNameFromUrl P u (ensureCacheDirectoryExists P w) = (name, w2)"
    by (cases "getFileNameFromUrl P u (ensureCacheDirectoryExists P w)")
  have w2: "w2 = (ensureCacheDirectoryExists P w)\<lparr>ticks := Suc (ticks w)\<rparr>"
    using getFileName_frame(1) [OF g] by simp
  obtain r3 w3 where d: "downloadAsync P u (cacheDir P @ name) w2 = (r3, w3)"
    by (cases "downloadAsync P u (cacheDir P @ name) w2")
  have w': "w' = w2 \<or> w' = w3"
    using assms g d by (auto simp: downloadFile_def Let_def split: if_splits sum.splits prod.splits)
  note fr = downloadAsync_frame [OF d]
  show "storage w' = storage w" using w' fr w2 by auto
  show "storage_up w' = storage_up w" using w' fr w2 by auto
  show "events w' = events w" using w' fr w2 by auto
  show "warnings w' = warnings w" using w' fr w2 by auto
  show "errors w' = errors w" using w' fr w2 by auto
  show "dirs w \<subseteq> dirs w'" using w' fr w2 ensure_dirs [of w P] by auto
  show "files w \<subseteq> files w'" using w' fr w2 by auto
  show "ticks w' = Suc (ticks w)" using w' fr w2 by auto
qed

lemma downloadFile_ok:
  assumes "downloadFile P u w = (Inr p, w')"
  shows "directly_under (cacheDir P) p" "path_exists w' p"
proof -
  obtain name w2 where g: "getFileNameFromUrl P u (ensureCacheDirectoryExists P w) = (name, w2)"
    by (cases "getFileNameFromUrl P u (ensureCacheDirectoryExists P w)")
  have n: "CHR ''/'' \<notin> set name" by (rule getFileName_frame(2) [OF g])
  obtain r3 w3 where d: "downloadAsync P u (cacheDir P @ name) w2 = (r3, w3)"
    by (cases "downloadAsync P u (cacheDir P @ name) w2")
  have "p = cacheDir P @ name \<and> path_exists w' p"
    using assms g d downloadAsync_ok [of P u "cacheDir P @ name" w2 _ _ w3]
    by (auto simp: downloadFile_def Let_def path_exists_def split: if_splits sum.splits prod.splits)
  then show "directly_under (cacheDir P) p" "path_exists w' p"
    using n by (auto simp: directly_under_append)
qed

lemma downloadFile_new_files:
  assumes "downloadFile P u w = (r, w')"
  shows "files w' \<subseteq> files w \<union> {p. directly_under (cacheDir P) p}"
proof -
  let ?name = "derive_name u (date_now P (ticks w)) (random_token (math_random P (ticks w)))"
  have n: "directly_under (cacheDir P) (cacheDir P @ ?name)"
    by (rule directly_under_append [OF slash_notin_derive_name [OF slash_notin_random_token]])
  have "files w' \<subseteq> insert (cacheDir P @ ?name) (files w)"
    using assms
    by (auto simp: downloadFile_def getFileNameFromUrl_def downloadAsync_def Let_def
        split: if_splits option.splits)
  then show ?thesis using n by auto
qed

text \<open>The outcome of a download on an instance that has initialised its cache.\<close>

lemma downloadFile_expected:
  assumes "downloadFile P u w = (r, w')" and "cacheInitialized w" and "ticks w = c + 1"
  shows "expected_outcome P (dirs w \<union> files w) (cacheDir P \<in> dirs w) c u =
           (r, dirs w' \<union> files w')"
    and "dirs w' = dirs w" and "cacheInitialized w'"
proof -
  let ?p = "local_path_at P (c + 1) u"
  let ?w2 = "w\<lparr>ticks := Suc (ticks w)\<rparr>"
  have pd: "parent_dir ?p = cacheDir P"
    unfolding local_path_at_def file_name_at_def
    by (rule parent_dir_cacheDir [OF slash_notin_derive_name [OF slash_notin_random_token]])
  have df: "downloadFile P u w =
      (if path_exists ?w2 ?p then (Inr ?p, ?w2)
       else (case downloadAsync P u ?p ?w2 of
               (Inl e, w3) \<Rightarrow> (Inl e, w3)
             | (Inr (status, uri), w3) \<Rightarrow>
                 if status = 200 then (Inr uri, w3) else (Inl (DownloadStatus u status), w3)))"
    by (simp add: downloadFile_def ensure_initialized [OF assms(2)] getFileNameFromUrl_def
        local_path_at_def file_name_at_def assms(3) Let_def)
  have "expected_outcome P (dirs w \<union> files w) (cacheDir P \<in> dirs w) c u =
           (r, dirs w' \<union> files w') \<and> dirs w' = dirs w \<and> cacheInitialized w'"
    using assms(1,2) df pd
    by (auto simp: expected_outcome_def downloadAsync_def path_exists_def Let_def
        split: if_splits option.splits)
  then show "expected_outcome P (dirs w \<union> files w) (cacheDir P \<in> dirs w) c u =
           (r, dirs w' \<union> files w')"
    and "dirs w' = dirs w" and "cacheInitialized w'"
    by simp_all
qed

section \<open>One turn of the download loop\<close>

lemma onProgress_frame [simp]:
  "storage (onProgress p w) = storage w"
  "storage_up (onProgress p w) = storage_up w"
  "ticks (onProgress p w) = ticks w"
  "fetched (onProgress p w) = fetched w"
  "events (onProgress p w) = events w @ [Reported p]"
  "warnings (onProgress p w) = warnings w"
  "errors (onProgress p w) = errors w"
  "files (onProgress p w) = files w"
  "dirs (onProgress p w) = dirs w"
  "cacheInitialized (onProgress p w) = cacheInitialized w"
  by (simp_all add: onProgress_def)

lemma console_warn_frame [simp]:
  "storage (console_warn u w) = storage w"
  "storage_up (console_warn u w) = storage_up w"
  "ticks (console_warn u w) = ticks w"
  "fetched (console_warn u w) = fetched w"
  "events (console_warn u w) = events w"
  "warnings (console_warn u w) = warnings w @ [u]"
  "errors (console_warn u w) = errors w"
  "files (console_warn u w) = files w"
  "dirs (console_warn u w) = dirs w"
  "cacheInitialized (console_warn u w) = cacheInitialized w"
  by (simp_all add: console_warn_def)

lemma set_update_subset: "set (AList.update k v al) \<subseteq> insert (k, v) (set al)"
  by (induction al) auto

lemma update_fresh: "k \<notin> fst ` set al \<Longrightarrow> AList.update k v al = al @ [(k, v)]"
  by (induction al) auto

lemma set_property_subset: "set (set_property k v al) \<subseteq> insert (k, v) (set al)"
  using set_update_subset [of k v al] by (auto simp: set_property_def)

lemma set_property_keys: "fst ` set (set_property k v al) \<subseteq> insert k (fst ` set al)"
  by (auto simp: set_property_def dom_update)

lemma set_property_distinct:
  "distinct (map fst al) \<Longrightarrow> distinct (map fst (set_property k v al))"
  by (simp add: set_property_def distinct_update)

lemma set_property_fresh:
  "k \<notin> fst ` set al \<Longrightarrow>
   set_property k v al = al @ filter (\<lambda>e. fst e \<noteq> ''__proto__'') [(k, v)]"
  by (simp add: set_property_def update_fresh)

lemma download_step_empty:
  "download_step P n [] (m, k, w) =
     (m, Suc k, onProgress \<lparr>total_n = n, downloaded = Suc k,
        currentFile = (if Suc k < n then ''Next file...'' else ''Complete!''),
        percentage = percentage_of (Suc k) n\<rparr> w)"
  by (simp add: download_step_def)

lemma download_step_cases:
  assumes "download_step P n u (m, k, w) = (m', k', w')" and "u \<noteq> []"
  obtains (success) p w3 where
      "downloadFile P u (onProgress \<lparr>total_n = n, downloaded = k,
          currentFile = file_name_at P (ticks w) u,
          percentage = percentage_of k n\<rparr> (w\<lparr>ticks := Suc (ticks w)\<rparr>)) = (Inr p, w3)"
      "m' = set_property u p m" "k' = Suc k"
      "w' = onProgress \<lparr>total_n = n, downloaded = Suc k,
          currentFile = (if Suc k < n then ''Next file...'' else ''Complete!''),
          percentage = percentage_of (Suc k) n\<rparr>
          (w3\<lparr>events := events w3 @ [Attempted u (Inr p)]\<rparr>)"
  | (failure) e w3 where
      "downloadFile P u (onProgress \<lparr>total_n = n, downloaded = k,
          currentFile = file_name_at P (ticks w) u,
          percentage = percentage_of k n\<rparr> (w\<lparr>ticks := Suc (ticks w)\<rparr>)) = (Inl e, w3)"
      "m' = m" "k' = Suc k"
      "w' = onProgress \<lparr>total_n = n, downloaded = Suc k,
          currentFile = (if Suc k < n then ''Next file...'' else ''Complete!''),
          percentage = percentage_of (Suc k) n\<rparr>
          (console_warn u (w3\<lparr>events := events w3 @ [Attempted u (Inl e)]\<rparr>))"
proof -
  let ?w2 = "onProgress \<lparr>total_n = n, downloaded = k, currentFile = file_name_at P (ticks w) u,
      percentage = percentage_of k n\<rparr> (w\<lparr>ticks := Suc (ticks w)\<rparr>)"
  obtain r w3 where d: "downloadFile P u ?w2 = (r, w3)"
    by (cases "downloadFile P u ?w2")
  show thesis
  proof (cases r)
    case (Inl e)
    with d assms show thesis
      by (intro failure [of e w3])
         (auto simp: download_step_def getFileNameFromUrl_def file_name_at_def Let_def)
  next
    case (Inr p)
    with d assms show thesis
      by (intro success [of p w3])
         (auto simp: download_step_def getFileNameFromUrl_def file_name_at_def Let_def)
  qed
qed

lemma assets_on_disk_mono:
  "assets_on_disk P w m \<Longrightarrow> dirs w \<subseteq> dirs w' \<Longrightarrow> files w \<subseteq> files w' \<Longrightarrow>
   assets_on_disk P w' m"
  by (auto simp: assets_on_disk_def list_all_iff intro: path_exists_mono)

lemma assets_on_disk_traces [simp]:
  "assets_on_disk P (onProgress q w) m = assets_on_disk P w m"
  "assets_on_disk P (console_warn u w) m = assets_on_disk P w m"
  "assets_on_disk P (w\<lparr>events := es\<rparr>) m = assets_on_disk P w m"
  by (simp_all add: assets_on_disk_def path_exists_def)

lemma assets_on_disk_update:
  "assets_on_disk P w m \<Longrightarrow> directly_under (cacheDir P) p \<Longrightarrow> path_exists w p \<Longrightarrow>
   assets_on_disk P w (set_property u p m)"
  using set_property_subset [of u p m] by (auto simp: assets_on_disk_def list_all_iff)

lemma download_step_inv:
  assumes "download_step P n u (m, k, w) = (m', k', w')"
  shows "k' = Suc k"
    and "storage w' = storage w" and "storage_up w' = storage_up w"
    and "errors w' = errors w" and "dirs w \<subseteq> dirs w'" and "files w \<subseteq> files w'"
    and "fst ` set m' \<subseteq> insert u (fst ` set m)"
    and "assets_on_disk P w m \<Longrightarrow> assets_on_disk P w' m'"
proof -
  have "k' = Suc k \<and> storage w' = storage w \<and> storage_up w' = storage_up w \<and>
    errors w' = errors w \<and> dirs w \<subseteq> dirs w' \<and> files w \<subseteq> files w' \<and>
    fst ` set m' \<subseteq> insert u (fst ` set m) \<and>
    (assets_on_disk P w m \<longrightarrow> assets_on_disk P w' m')"
  proof (cases "u = []")
    case True
    with assms show ?thesis
      by (auto simp: download_step_empty intro: assets_on_disk_mono)
  next
    case False
    from assms False show ?thesis
    proof (cases rule: download_step_cases)
      case (success p w3)
      note fr = downloadFile_frame [OF success(1)] and ok = downloadFile_ok [OF success(1)]
      have sub: "dirs w \<subseteq> dirs w3" "files w \<subseteq> files w3"
        using fr(6,7) by simp_all
      have "assets_on_disk P w m \<Longrightarrow> assets_on_disk P w3 (set_property u p m)"
        using ok by (intro assets_on_disk_update assets_on_disk_mono [OF _ sub])
      then have "assets_on_disk P w m \<longrightarrow> assets_on_disk P w' m'"
        using success(2,4) by simp
      then show ?thesis
        using success fr set_property_keys [of u p m] by auto
    next
      case (failure e w3)
      note fr = downloadFile_frame [OF failure(1)]
      have sub: "dirs w \<subseteq> dirs w3" "files w \<subseteq> files w3"
        using fr(6,7) by simp_all
      have "assets_on_disk P w m \<longrightarrow> assets_on_disk P w' m'"
        using failure(2,4) assets_on_disk_mono [OF _ sub] by simp
      then show ?thesis
        using failure fr by auto
    qed
  qed
  then show "k' = Suc k"
    and "storage w' = storage w" and "storage_up w' = storage_up w"
    and "errors w' = errors w" and "dirs w \<subseteq> dirs w'" and "files w \<subseteq> files w'"
    and "fst ` set m' \<subseteq> insert u (fst ` set m)"
    and "assets_on_disk P w m \<Longrightarrow> assets_on_disk P w' m'"
    by simp_all
qed

lemma download_step_distinct:
  assumes "download_step P n u (m, k, w) = (m', k', w')" and "distinct (map fst m)"
  shows "distinct (map fst m')"
proof (cases "u = []")
  case True
  with assms show ?thesis by (simp add: download_step_empty)
next
  case False
  from assms(1) False show ?thesis
    by (cases rule: download_step_cases) (simp_all add: assms(2) set_property_distinct)
qed

lemma failures_Cons: "failures (x # xs) = failures [x] @ failures xs"
proof (cases x)
  case (Pair u r)
  then show ?thesis by (cases r) simp_all
qed

lemma successes_Cons: "successes (x # xs) = successes [x] @ successes xs"
proof (cases x)
  case (Pair u r)
  then show ?thesis by (cases r) simp_all
qed

lemma length_successes_failures: "length (successes xs) + length (failures xs) = length xs"
  by (induction xs rule: successes.induct) simp_all

lemma keys_successes: "fst ` set (successes xs) \<subseteq> fst ` set xs"
  by (induction xs rule: successes.induct) auto

text \<open>
  A turn for a URL that has no entry yet, on an instance that has initialised its
  cache: the events, the warning, the entry and the outcome of the download.
\<close>

lemma download_step_turn:
  assumes s: "download_step P n u (m, k, w) = (m', k', w')" and u: "u \<noteq> []"
    and f: "u \<notin> fst ` set m" and i: "cacheInitialized w" and c: "ticks w = c + 2 * k"
  obtains r where
    "expected_outcome P (dirs w \<union> files w) (cacheDir P \<in> dirs w) (ticks w) u =
       (r, dirs w' \<union> files w')"
    "events w' = events w @ turn_events P n c (k, u, r)"
    "warnings w' = warnings w @ failures [(u, r)]"
    "m' = m @ filter (\<lambda>e. fst e \<noteq> ''__proto__'') (successes [(u, r)])"
    "k' = Suc k" "ticks w' = c + 2 * Suc k" "cacheInitialized w'" "dirs w' = dirs w"
proof -
  let ?w2 = "onProgress \<lparr>total_n = n, downloaded = k, currentFile = file_name_at P (ticks w) u,
      percentage = percentage_of k n\<rparr> (w\<lparr>ticks := Suc (ticks w)\<rparr>)"
  have i2: "cacheInitialized ?w2" using i by simp
  have t2: "ticks ?w2 = ticks w + 1" by simp
  have fs: "dirs ?w2 = dirs w" "files ?w2 = files w" by simp_all
  from s u show thesis
  proof (cases rule: download_step_cases)
    case (success p w3)
    note fr = downloadFile_frame [OF success(1)]
      and ex = downloadFile_expected [OF success(1) i2 t2, unfolded fs]
    have "expected_outcome P (dirs w \<union> files w) (cacheDir P \<in> dirs w) (ticks w) u =
        (Inr p, dirs w' \<union> files w')"
      using ex(1) by (simp add: success(4))
    moreover have "m' = m @ filter (\<lambda>e. fst e \<noteq> ''__proto__'') (successes [(u, Inr p)])"
      using success(2) set_property_fresh [OF f] by simp
    moreover have "events w' = events w @ turn_events P n c (k, u, Inr p)"
      using success(4) fr(3) c by (simp add: turn_events_def)
    moreover have "warnings w' = warnings w @ failures [(u, Inr p)]"
      using success(4) fr(4) by simp
    moreover have "ticks w' = c + 2 * Suc k" using success(4) fr(8) c by simp
    moreover have "cacheInitialized w'" using success(4) ex(3) by simp
    moreover have "dirs w' = dirs w" using success(4) ex(2) by simp
    ultimately show thesis using success(3) by (intro that [of "Inr p"])
  next
    case (failure e w3)
    note fr = downloadFile_frame [OF failure(1)]
      and ex = downloadFile_expected [OF failure(1) i2 t2, unfolded fs]
    have "expected_outcome P (dirs w \<union> files w) (cacheDir P \<in> dirs w) (ticks w) u =
        (Inl e, dirs w' \<union> files w')"
      using ex(1) by (simp add: failure(4))
    moreover have "m' = m @ filter (\<lambda>e. fst e \<noteq> ''__proto__'') (successes [(u, Inl e)])"
      using failure(2) by simp
    moreover have "events w' = events w @ turn_events P n c (k, u, Inl e)"
      using failure(4) fr(3) c by (simp add: turn_events_def)
    moreover have "warnings w' = warnings w @ failures [(u, Inl e)]"
      using failure(4) fr(4) by simp
    moreover have "ticks w' = c + 2 * Suc k" using failure(4) fr(8) c by simp
    moreover have "cacheInitialized w'" using failure(4) ex(3) by simp
    moreover have "dirs w' = dirs w" using failure(4) ex(2) by simp
    ultimately show thesis using failure(3) by (intro that [of "Inl e"])
  qed
qed

lemma download_step_new_files:
  assumes "download_step P n u (m, k, w) = (m', k', w')"
  shows "files w' \<subseteq> files w \<union> {p. directly_under (cacheDir P) p}"
proof (cases "u = []")
  case True
  with assms show ?thesis by (auto simp: download_step_empty)
next
  case False
  from assms False show ?thesis
  proof (cases rule: download_step_cases)
    case (success p w3)
    then show ?thesis using downloadFile_new_files [OF success(1)] by simp
  next
    case (failure e w3)
    then show ?thesis using downloadFile_new_files [OF failure(1)] by simp
  qed
qed

section \<open>Percentages\<close>

text \<open>
  The double nearest to a positive quotient \<open>p / q\<close> below \<open>2 ^ 53\<close> differs from it by
  at most \<open>p / q / 2 ^ 53\<close>. Hence the percentage reported for a count \<open>d\<close> out of \<open>t\<close>,
  with \<open>t\<close> below \<open>2 ^ 32\<close>, is an integer nearest to \<open>100 * d / t\<close>.
\<close>

lemma bit_length_pos: "0 < n \<Longrightarrow> bit_length n = Suc (bit_length (n div 2))"
  by (subst bit_length.simps) simp

lemma bit_length_bounds:
  "0 < n \<Longrightarrow> 2 ^ bit_length n \<le> 2 * n \<and> n < 2 ^ bit_length n"
proof (induction n rule: bit_length.induct)
  case (1 n)
  show ?case
  proof (cases "n div 2 = 0")
    case True
    with 1(2) have "n = 1" by presburger
    moreover have "bit_length 1 = Suc (bit_length 0)"
      using bit_length_pos [of 1] by simp
    moreover have "bit_length 0 = 0" by (simp add: bit_length.simps)
    ultimately show ?thesis by simp
  next
    case False
    with 1(2) have pos: "0 < n div 2" by presburger
    have ih: "2 ^ bit_length (n div 2) \<le> 2 * (n div 2)" "n div 2 < 2 ^ bit_length (n div 2)"
      using 1(1) 1(2) pos by simp_all
    have "2 * (n div 2) \<le> n" by presburger
    moreover have "n < 2 * (n div 2) + 2" by presburger
    ultimately show ?thesis
      unfolding bit_length_pos [OF 1(2)] using ih by simp
  qed
qed

lemma scale_arith_ge:
  fixes p q A B S K :: int
  assumes "S * A = K * B" and "0 < A" and "p < A" and "B \<le> 2 * q" and "q * A \<le> p * B"
    and K: "0 < K" "0 < B"
  shows "K * q \<le> p * S" and "p * S < 2 * K * q"
proof -
  have "A * (K * q) = K * (q * A)" by (simp only: ac_simps)
  also have "\<dots> \<le> K * (p * B)" using assms(5) K(1) by (simp only: mult_le_cancel_left_pos)
  also have "\<dots> = p * (K * B)" by (simp only: ac_simps)
  also have "\<dots> = p * (S * A)" by (simp only: assms(1))
  also have "\<dots> = A * (p * S)" by (simp only: ac_simps)
  finally show "K * q \<le> p * S" using assms(2) by (simp only: mult_le_cancel_left_pos)
  have "p * B < A * B" using assms(3) K(2) by (simp only: mult_less_cancel_right_pos)
  have "A * (p * S) = p * (S * A)" by (simp only: ac_simps)
  also have "\<dots> = p * (K * B)" by (simp only: assms(1))
  also have "\<dots> = K * (p * B)" by (simp only: ac_simps)
  also have "\<dots> < K * (A * B)" using \<open>p * B < A * B\<close> K(1) by (simp only: mult_less_cancel_left_pos)
  also have "\<dots> = (K * A) * B" by (simp only: ac_simps)
  also have "\<dots> \<le> (K * A) * (2 * q)"
    using assms(4) assms(2) K(1) by (intro mult_left_mono) simp_all
  also have "\<dots> = A * (2 * K * q)" by (simp only: ac_simps)
  finally show "p * S < 2 * K * q" using assms(2) by (simp only: mult_less_cancel_left_pos)
qed

lemma scale_arith_lt:
  fixes p q A B S K :: int
  assumes "S * A = 2 * K * B" and "0 < A" and "A \<le> 2 * p" and "q < B" and "p * B < q * A"
    and K: "0 < K" "0 < p" "0 < q"
  shows "K * q \<le> p * S" and "p * S < 2 * K * q"
proof -
  have "A * (K * q) = (K * q) * A" by (simp only: ac_simps)
  also have "\<dots> \<le> (K * q) * (2 * p)"
    using assms(3) K by (intro mult_left_mono) simp_all
  also have "\<dots> = (K * (2 * p)) * q" by (simp only: ac_simps)
  also have "\<dots> \<le> (K * (2 * p)) * B"
    using assms(4) K by (intro mult_left_mono) simp_all
  also have "\<dots> = p * (2 * K * B)" by (simp only: ac_simps)
  also have "\<dots> = p * (S * A)" by (simp only: assms(1))
  also have "\<dots> = A * (p * S)" by (simp only: ac_simps)
  finally show "K * q \<le> p * S" using assms(2) by (simp only: mult_le_cancel_left_pos)
  have "A * (p * S) = p * (S * A)" by (simp only: ac_simps)
  also have "\<dots> = p * (2 * K * B)" by (simp only: assms(1))
  also have "\<dots> = (2 * K) * (p * B)" by (simp only: ac_simps)
  also have "\<dots> < (2 * K) * (q * A)"
    using assms(5) K(1) by (intro mult_strict_left_mono) simp_all
  also have "\<dots> = A * (2 * K * q)" by (simp only: ac_simps)
  finally show "p * S < 2 * K * q" using assms(2) by (simp only: mult_less_cancel_left_pos)
qed

lemma scale_bounds:
  assumes "0 < p" and "0 < q" and "p < 2 ^ 53 * q"
  shows "floor_log2 p q \<le> 52"
    and "2 ^ 52 * q \<le> p * 2 ^ nat (52 - floor_log2 p q)"
    and "p * 2 ^ nat (52 - floor_log2 p q) < 2 ^ 53 * q"
proof -
  define a b where "a = bit_length p" and "b = bit_length q"
  have pa: "2 ^ a \<le> 2 * p" "p < 2 ^ a" and qb: "2 ^ b \<le> 2 * q" "q < 2 ^ b"
    using bit_length_bounds [OF assms(1)] bit_length_bounds [OF assms(2)]
    by (simp_all add: a_def b_def)
  have "(2::int) ^ a < 2 ^ (54 + b)"
  proof -
    have "(2::int) ^ a \<le> 2 * p" by (rule pa(1))
    also have "\<dots> < 2 * (2 ^ 53 * q)" using assms(3) by simp
    also have "\<dots> < 2 * (2 ^ 53 * 2 ^ b)" using qb(2) by simp
    also have "\<dots> = 2 ^ (54 + b)" by (simp add: power_add)
    finally show ?thesis .
  qed
  then have ab: "a < 54 + b" by simp
  have k: "(2::int) ^ 53 = 2 * 2 ^ 52" by simp
  have pos: "(0::int) < 2 ^ a" "(0::int) < 2 ^ b" "(0::int) < 2 ^ 52" by simp_all
  consider (ge) "q * 2 ^ a \<le> p * 2 ^ b" | (lt) "p * 2 ^ b < q * 2 ^ a" by linarith
  then have "floor_log2 p q \<le> 52 \<and>
      2 ^ 52 * q \<le> p * 2 ^ nat (52 - floor_log2 p q) \<and>
      p * 2 ^ nat (52 - floor_log2 p q) < 2 ^ 53 * q"
  proof cases
    case ge
    have E: "floor_log2 p q = int a - int b"
      using ge by (simp add: floor_log2_def a_def b_def Let_def)
    have "a \<noteq> 53 + b"
    proof
      assume "a = 53 + b"
      then have "(q * 2 ^ 53) * 2 ^ b \<le> p * 2 ^ b"
        using ge by (simp only: power_add ac_simps)
      then have "q * 2 ^ 53 \<le> p" by simp
      then show False using assms(3) by (simp add: mult.commute)
    qed
    then have le: "a \<le> 52 + b" using ab by simp
    then have s: "nat (52 - floor_log2 p q) = 52 + b - a" by (simp add: E)
    have "52 + b - a + a = 52 + b" using le by simp
    then have pw: "(2::int) ^ (52 + b - a) * 2 ^ a = 2 ^ 52 * 2 ^ b"
      by (simp only: power_add [symmetric])
    have "2 ^ 52 * q \<le> p * 2 ^ (52 + b - a)" "p * 2 ^ (52 + b - a) < 2 * 2 ^ 52 * q"
      by (rule scale_arith_ge [OF pw pos(1) pa(2) qb(1) ge pos(3) pos(2)])+
    moreover have "floor_log2 p q \<le> 52" using le by (simp add: E)
    ultimately show ?thesis unfolding s k by simp
  next
    case lt
    have E: "floor_log2 p q = int a - int b - 1"
      using lt by (simp add: floor_log2_def a_def b_def Let_def)
    have le: "a \<le> 53 + b" using ab by simp
    then have s: "nat (52 - floor_log2 p q) = 53 + b - a" by (simp add: E)
    have "53 + b - a + a = 53 + b" using le by simp
    then have "(2::int) ^ (53 + b - a) * 2 ^ a = 2 ^ 53 * 2 ^ b"
      by (simp only: power_add [symmetric])
    then have pw: "(2::int) ^ (53 + b - a) * 2 ^ a = 2 * 2 ^ 52 * 2 ^ b"
      by (simp only: k)
    have "2 ^ 52 * q \<le> p * 2 ^ (53 + b - a)" "p * 2 ^ (53 + b - a) < 2 * 2 ^ 52 * q"
      by (rule scale_arith_lt [OF pw pos(1) pa(1) qb(2) lt pos(3) assms(1,2)])+
    moreover have "floor_log2 p q \<le> 52" using le by (simp add: E)
    ultimately show ?thesis unfolding s k by simp
  qed
  then show "floor_log2 p q \<le> 52"
    and "2 ^ 52 * q \<le> p * 2 ^ nat (52 - floor_log2 p q)"
    and "p * 2 ^ nat (52 - floor_log2 p q) < 2 ^ 53 * q"
    by simp_all
qed

lemma round_half_even_cases:
  "(round_half_even A B = A div B \<and> 2 * (A mod B) \<le> B) \<or>
   (round_half_even A B = A div B + 1 \<and> B \<le> 2 * (A mod B))"
  by (simp add: round_half_even_def Let_def)

lemma round_half_even_bounds:
  assumes "0 < B"
  shows "2 * (B * round_half_even A B) \<le> 2 * A + B"
    and "2 * A \<le> 2 * (B * round_half_even A B) + B"
proof -
  define k r where "k = B * (A div B)" and "r = A mod B"
  have A: "A = k + r" by (simp add: k_def r_def)
  have r: "0 \<le> r" "r < B" using assms by (simp_all add: r_def)
  have s: "B * (A div B + 1) = k + B" by (simp add: k_def algebra_simps)
  from round_half_even_cases [of A B]
  have "(B * round_half_even A B = k \<and> 2 * r \<le> B) \<or> (B * round_half_even A B = k + B \<and> B \<le> 2 * r)"
    unfolding k_def r_def by (metis s k_def)
  then show "2 * (B * round_half_even A B) \<le> 2 * A + B"
    and "2 * A \<le> 2 * (B * round_half_even A B) + B"
    using A r by auto
qed

lemma nearest_double_int:
  assumes "0 < p" and "0 < q" and "p < 2 ^ 53 * q" and nd: "nearest_double p q = (m, S)"
  shows "0 < S"
    and "2 * (q * m) \<le> 2 * (p * S) + q"
    and "2 * (p * S) \<le> 2 * (q * m) + q"
    and "2 ^ 52 * q \<le> p * S"
    and "0 < m"
proof -
  have E: "floor_log2 p q \<le> 52" by (rule scale_bounds(1) [OF assms(1-3)])
  have S: "S = 2 ^ nat (52 - floor_log2 p q)"
    and m: "m = round_half_even (p * S) q"
    using nd assms(1) E by (auto simp add: nearest_double_def Let_def)
  show "0 < S" by (simp add: S)
  show a: "2 * (q * m) \<le> 2 * (p * S) + q" unfolding m by (rule round_half_even_bounds(1) [OF assms(2)])
  show b: "2 * (p * S) \<le> 2 * (q * m) + q" unfolding m by (rule round_half_even_bounds(2) [OF assms(2)])
  show c: "2 ^ 52 * q \<le> p * S" unfolding S by (rule scale_bounds(2) [OF assms(1-3)])
  have "q * 2 ^ 53 \<le> q * (2 * m + 1)" using b c by (simp add: algebra_simps)
  then have "2 ^ 53 \<le> 2 * m + 1" using assms(2) by (simp only: mult_le_cancel_left_pos)
  then show "0 < m" by simp
qed

lemma nearest_double_error:
  assumes "0 < p" and "0 < q" and "p < 2 ^ 53 * q" and nd: "nearest_double p q = (m, S)"
  shows "\<bar>real_of_int m / real_of_int S - real_of_int p / real_of_int q\<bar>
           \<le> real_of_int p / real_of_int q / 2 ^ 53"
proof -
  note n = nearest_double_int [OF assms]
  define e where "e = real_of_int q * real_of_int m - real_of_int p * real_of_int S"
  have S: "0 < real_of_int S" and q: "0 < real_of_int q" using n(1) assms(2) by simp_all
  have "real_of_int (2 * (q * m)) \<le> real_of_int (2 * (p * S) + q)"
    using n(2) by (simp only: of_int_le_iff)
  then have u: "e \<le> real_of_int q / 2" by (simp add: e_def)
  have "real_of_int (2 * (p * S)) \<le> real_of_int (2 * (q * m) + q)"
    using n(3) by (simp only: of_int_le_iff)
  then have l: "- (real_of_int q / 2) \<le> e" by (simp add: e_def)
  have "real_of_int (2 ^ 52 * q) \<le> real_of_int (p * S)" using n(4) by (simp only: of_int_le_iff)
  then have "2 ^ 52 * real_of_int q \<le> real_of_int p * real_of_int S" by simp
  then have h: "real_of_int q / 2 \<le> real_of_int p * real_of_int S / 2 ^ 53" by simp
  have e: "\<bar>e\<bar> \<le> real_of_int p * real_of_int S / 2 ^ 53" using u l h by linarith
  have "real_of_int m / real_of_int S - real_of_int p / real_of_int q =
      e / (real_of_int q * real_of_int S)"
    using S q by (simp add: e_def field_simps)
  then have "\<bar>real_of_int m / real_of_int S - real_of_int p / real_of_int q\<bar> =
      \<bar>e\<bar> / (real_of_int q * real_of_int S)"
    using S q by (simp add: abs_mult)
  also have "\<dots> \<le> (real_of_int p * real_of_int S / 2 ^ 53) / (real_of_int q * real_of_int S)"
  proof (rule divide_right_mono)
    show "\<bar>e\<bar> \<le> real_of_int p * real_of_int S / 2 ^ 53" by (rule e)
    show "0 \<le> real_of_int q * real_of_int S" using S q by simp
  qed
  also have "\<dots> = real_of_int p / real_of_int q / 2 ^ 53" using S q by simp
  finally show ?thesis .
qed

lemma nearest_double_le_one:
  assumes "0 < p" and "p \<le> q" and nd: "nearest_double p q = (m, S)"
  shows "m \<le> S" and "0 < S" and "0 < m"
proof -
  have q: "0 < q" using assms(1,2) by simp
  have "p < 2 ^ 53 * q" using assms(1,2) by simp
  note n = nearest_double_int [OF assms(1) q this nd]
  show "0 < S" by (rule n(1))
  show "0 < m" by (rule n(5))
  have "p * S \<le> q * S" using assms(2) n(1) by (simp only: mult_le_cancel_right_pos)
  then have "2 * (q * m) < 2 * (q * S) + 2 * q" using n(2) q by linarith
  also have "\<dots> = 2 * (q * (S + 1))" by (simp add: algebra_simps)
  finally have "q * m < q * (S + 1)" by simp
  then have "m < S + 1" using q by (simp only: mult_less_cancel_left_pos)
  then show "m \<le> S" by simp
qed

lemma Math_round_floor:
  assumes "0 < b"
  shows "Math_round (a, b) = \<lfloor>real_of_int a / real_of_int b + 1 / 2\<rfloor>"
proof -
  have "real_of_int a / real_of_int b + 1 / 2 =
      real_of_int (2 * a + b) / real_of_int (2 * b)"
    using assms by (simp add: field_simps)
  then show ?thesis by (simp only: Math_round_def prod.case floor_divide_of_int_eq)
qed

lemma percentage_of_zero: "percentage_of 0 t = 0"
  by (simp add: percentage_of_def Number_div_def Number_times_def nearest_double_def
      Math_round_def)

text \<open>The reported percentage is an integer nearest to the exact one.\<close>

lemma percentage_of_bounds:
  assumes "d \<le> t" and "0 < t" and "t < 2 ^ 32"
  shows "(2 * percentage_of d t - 1) * int t \<le> 200 * int d"
    and "200 * int d \<le> (2 * percentage_of d t + 1) * int t"
proof -
  have "(2 * percentage_of d t - 1) * int t \<le> 200 * int d \<and>
        200 * int d \<le> (2 * percentage_of d t + 1) * int t"
  proof (cases "d = 0")
    case True
    then show ?thesis by (simp add: percentage_of_zero)
  next
    case False
    define D T where "D = int d" and "T = int t"
    have d: "0 < D" and dt: "D \<le> T" and T: "0 < T" "T < 2 ^ 32"
      using False assms by (simp_all add: D_def T_def)
    obtain a b where nd: "nearest_double D T = (a, b)" by (cases "nearest_double D T")
    have dt53: "D < 2 ^ 53 * T" using d dt by simp
    note ab = nearest_double_le_one [OF d dt nd]
    have e1: "\<bar>real_of_int a / real_of_int b - real_of_int D / real_of_int T\<bar>
        \<le> real_of_int D / real_of_int T / 2 ^ 53"
      by (rule nearest_double_error [OF d T(1) dt53 nd])
    obtain a2 b2 where nd2: "nearest_double (a * 100) b = (a2, b2)"
      by (cases "nearest_double (a * 100) b")
    define x y1 y2 where "x = real_of_int D / real_of_int T"
      and "y1 = real_of_int a / real_of_int b" and "y2 = real_of_int a2 / real_of_int b2"
    define r where "r = percentage_of d t"
    define c :: real where "c = 1 / 2 ^ 53"
    have x: "0 \<le> x" "x \<le> 1" using d dt T(1) by (simp_all add: x_def)
    have y1: "0 \<le> y1" "y1 \<le> 1" using ab by (simp_all add: y1_def)
    have e1': "\<bar>y1 - x\<bar> \<le> c"
    proof -
      have "x / 2 ^ 53 \<le> 1 / 2 ^ 53" using x(2) by (simp add: divide_right_mono)
      then show ?thesis using e1 unfolding x_def y1_def c_def by linarith
    qed
    have a: "0 < a * 100" using ab(3) by simp
    have "a * 100 \<le> b * 100" using ab(1) by simp
    also have "\<dots> < 2 ^ 53 * b" using ab(2) by simp
    finally have lt: "a * 100 < 2 ^ 53 * b" .
    have b2: "0 < b2" by (rule nearest_double_int(1) [OF a ab(2) lt nd2])
    have y2: "\<bar>y2 - 100 * y1\<bar> \<le> 100 * c"
    proof -
      have eq: "real_of_int (a * 100) / real_of_int b = 100 * y1" by (simp add: y1_def)
      have "\<bar>real_of_int a2 / real_of_int b2 - real_of_int (a * 100) / real_of_int b\<bar>
          \<le> real_of_int (a * 100) / real_of_int b / 2 ^ 53"
        by (rule nearest_double_error [OF a ab(2) lt nd2])
      then have "\<bar>y2 - 100 * y1\<bar> \<le> 100 * y1 / 2 ^ 53" unfolding eq y2_def [symmetric] .
      moreover have "100 * y1 / 2 ^ 53 \<le> 100 * c" using y1(2) by (simp add: c_def)
      ultimately show ?thesis by simp
    qed
    have eps: "\<bar>y2 - 100 * x\<bar> \<le> 200 * c" using y2 e1' by linarith
    have r: "r = \<lfloor>y2 + 1 / 2\<rfloor>"
      using b2
      by (simp add: r_def percentage_of_def Number_div_def Number_times_def
          D_def [symmetric] T_def [symmetric] nd nd2 Math_round_floor y2_def)
    have rl: "real_of_int r \<le> y2 + 1 / 2" and ru: "y2 + 1 / 2 < real_of_int r + 1"
      unfolding r by linarith+
    have t: "0 < real_of_int T" using T(1) by simp
    have "real_of_int T < real_of_int (2 ^ 32)" using T(2) by (simp only: of_int_less_iff)
    then have t32: "real_of_int T < 2 ^ 32" by simp
    have tx: "real_of_int T * x = real_of_int D" using T(1) by (simp add: x_def)
    have c: "0 < c" "2 ^ 32 * (400 * c) < 1" by (simp_all add: c_def)
    have "real_of_int T * (400 * c) \<le> 2 ^ 32 * (400 * c)"
      using t32 c(1) by (intro mult_right_mono) simp_all
    then have te: "real_of_int T * (400 * c) < 1" using c(2) by linarith
    have "real_of_int r - 1 / 2 - 200 * c \<le> 100 * x" using rl eps by linarith
    then have "real_of_int T * (real_of_int r - 1 / 2 - 200 * c) \<le> real_of_int T * (100 * x)"
      using t by (simp only: mult_le_cancel_left_pos)
    also have "\<dots> = 100 * real_of_int D" using tx by simp
    finally have "2 * (real_of_int T * (real_of_int r - 1 / 2 - 200 * c)) \<le> 200 * real_of_int D"
      by simp
    then have "(2 * real_of_int r - 1) * real_of_int T - real_of_int T * (400 * c)
        \<le> 200 * real_of_int D"
      by (simp add: algebra_simps)
    then have "(2 * real_of_int r - 1) * real_of_int T < 200 * real_of_int D + 1"
      using te by linarith
    then have "real_of_int ((2 * r - 1) * T) < real_of_int (200 * D + 1)" by simp
    then have lo: "(2 * r - 1) * T < 200 * D + 1" by (simp only: of_int_less_iff)
    have "100 * x < real_of_int r + 1 / 2 + 200 * c" using ru eps by linarith
    then have "real_of_int T * (100 * x) < real_of_int T * (real_of_int r + 1 / 2 + 200 * c)"
      using t by (simp only: mult_less_cancel_left_pos)
    moreover have "real_of_int T * (100 * x) = 100 * real_of_int D" using tx by simp
    ultimately have "200 * real_of_int D
        < 2 * (real_of_int T * (real_of_int r + 1 / 2 + 200 * c))" by simp
    then have "200 * real_of_int D
        < (2 * real_of_int r + 1) * real_of_int T + real_of_int T * (400 * c)"
      by (simp add: algebra_simps)
    then have "200 * real_of_int D < (2 * real_of_int r + 1) * real_of_int T + 1"
      using te by linarith
    then have "real_of_int (200 * D) < real_of_int ((2 * r + 1) * T + 1)" by simp
    then have hi: "200 * D < (2 * r + 1) * T + 1" by (simp only: of_int_less_iff)
    show ?thesis using lo hi unfolding r_def D_def T_def by simp
  qed
  then show "(2 * percentage_of d t - 1) * int t \<le> 200 * int d"
    and "200 * int d \<le> (2 * percentage_of d t + 1) * int t" by simp_all
qed

lemma percentage_of_near:
  assumes "d \<le> t" and "0 < t" and "t < 2 ^ 32"
  shows "\<bar>200 * int d - 2 * percentage_of d t * int t\<bar> \<le> int t"
  using percentage_of_bounds [OF assms] by (simp add: algebra_simps abs_le_iff)

lemma percentage_of_mono:
  assumes "i \<le> j" and "j \<le> t" and "0 < t" and "t < 2 ^ 32"
  shows "percentage_of i t \<le> percentage_of j t"
proof (rule ccontr)
  assume "\<not> percentage_of i t \<le> percentage_of j t"
  then have lt: "2 * percentage_of j t + 1 \<le> 2 * percentage_of i t - 1" by simp
  have it: "i \<le> t" using assms(1,2) by simp
  have "200 * int j \<le> (2 * percentage_of j t + 1) * int t"
    by (rule percentage_of_bounds(2) [OF assms(2-4)])
  also have "\<dots> \<le> (2 * percentage_of i t - 1) * int t"
    using lt by (rule mult_right_mono) simp
  also have "\<dots> \<le> 200 * int i"
    by (rule percentage_of_bounds(1) [OF it assms(3,4)])
  finally have "j \<le> i" by simp
  then have "i = j" using assms(1) by simp
  then show False using \<open>\<not> percentage_of i t \<le> percentage_of j t\<close> by simp
qed

lemma percentage_of_round:
  assumes "d \<le> t" and "0 < t" and "t < 2 ^ 32"
    and tie: "200 * int d mod (2 * int t) \<noteq> int t"
  shows "percentage_of d t = round (real d / real t * 100)"
proof -
  define r where "r = percentage_of d t"
  note b = percentage_of_bounds [OF assms(1-3), folded r_def]
  have n1: "200 * int d \<noteq> (2 * r - 1) * int t"
  proof
    assume "200 * int d = (2 * r - 1) * int t"
    then have "200 * int d = int t + (r - 1) * (2 * int t)" by (simp add: algebra_simps)
    then have "200 * int d mod (2 * int t) = (int t + (r - 1) * (2 * int t)) mod (2 * int t)"
      by (rule arg_cong)
    also have "\<dots> = int t mod (2 * int t)" by (rule mod_mult_self1)
    finally have "200 * int d mod (2 * int t) = int t mod (2 * int t)" .
    then show False using tie assms(2) by simp
  qed
  have n2: "200 * int d \<noteq> (2 * r + 1) * int t"
  proof
    assume "200 * int d = (2 * r + 1) * int t"
    then have "200 * int d = int t + r * (2 * int t)" by (simp add: algebra_simps)
    then have "200 * int d mod (2 * int t) = (int t + r * (2 * int t)) mod (2 * int t)"
      by (rule arg_cong)
    also have "\<dots> = int t mod (2 * int t)" by (rule mod_mult_self1)
    finally have "200 * int d mod (2 * int t) = int t mod (2 * int t)" .
    then show False using tie assms(2) by simp
  qed
  have lo: "(2 * r - 1) * int t < 200 * int d" using b(1) n1 by simp
  have hi: "200 * int d < (2 * r + 1) * int t" using b(2) n2 by simp
  define x where "x = real d / real t * 100"
  have t: "0 < real t" using assms(2) by simp
  have tx: "2 * (real t * x) = 200 * real d" using assms(2) by (simp add: x_def)
  have "real_of_int ((2 * r - 1) * int t) < real_of_int (200 * int d)"
    using lo by (simp only: of_int_less_iff)
  then have "real t * (2 * real_of_int r - 1) < real t * (2 * x)"
    using tx by (simp add: algebra_simps)
  then have l: "2 * real_of_int r - 1 < 2 * x" using t by (simp only: mult_less_cancel_left_pos)
  have "real_of_int (200 * int d) < real_of_int ((2 * r + 1) * int t)"
    using hi by (simp only: of_int_less_iff)
  then have "real t * (2 * x) < real t * (2 * real_of_int r + 1)"
    using tx by (simp add: algebra_simps)
  then have u: "2 * x < 2 * real_of_int r + 1" using t by (simp only: mult_less_cancel_left_pos)
  have "\<lfloor>x + 1 / 2\<rfloor> = r" using l u by (intro floor_unique) simp_all
  then show ?thesis by (simp add: round_def x_def r_def)
qed

lemma sorted_before_after:
  assumes "\<And>i j. i \<le> j \<Longrightarrow> j \<le> N \<Longrightarrow> f i \<le> (f j :: int)" and "k + len \<le> N"
  shows "sorted (concat (map (\<lambda>i. [f i, f (Suc i)]) [k ..< k + len])) \<and>
         (\<forall>x \<in> set (concat (map (\<lambda>i. [f i, f (Suc i)]) [k ..< k + len])). x \<le> f (k + len))"
  using assms(2)
proof (induction len)
  case 0
  then show ?case by simp
next
  case (Suc len)
  have a: "f (k + len) \<le> f (Suc (k + len))" using Suc.prems by (intro assms(1)) simp_all
  have b: "x \<le> f (k + len) \<Longrightarrow> x \<le> f (Suc (k + len))" for x
    using a by simp
  have "k + len \<le> N" using Suc.prems by simp
  from Suc.IH [OF this] a b show ?case by (auto simp: sorted_append)
qed

section \<open>The download loop and the batch\<close>

lemma download_loop_Cons:
  assumes "download_step P n u st = st1"
  shows "download_loop P n (u # us) st = download_loop P n us st1"
  using assms by simp

lemma download_loop_inv_all:
  "download_loop P n us (m, k, w) = (m', k', w') \<Longrightarrow>
   k' = k + length us \<and> storage w' = storage w \<and> storage_up w' = storage_up w \<and>
   errors w' = errors w \<and> dirs w \<subseteq> dirs w' \<and> files w \<subseteq> files w' \<and>
   fst ` set m' \<subseteq> fst ` set m \<union> set us \<and>
   (assets_on_disk P w m \<longrightarrow> assets_on_disk P w' m')"
proof (induction us arbitrary: m k w)
  case Nil
  then show ?case by simp
next
  case (Cons u us)
  obtain m1 k1 w1 where s: "download_step P n u (m, k, w) = (m1, k1, w1)"
    by (cases "download_step P n u (m, k, w)")
  have l: "download_loop P n us (m1, k1, w1) = (m', k', w')"
    using Cons.prems download_loop_Cons [OF s, of us] by simp
  note st = download_step_inv [OF s]
  from Cons.IH [OF l] have ih: "k' = k1 + length us" "storage w' = storage w1"
    "storage_up w' = storage_up w1" "errors w' = errors w1" "dirs w1 \<subseteq> dirs w'"
    "files w1 \<subseteq> files w'" "fst ` set m' \<subseteq> fst ` set m1 \<union> set us"
    "assets_on_disk P w1 m1 \<longrightarrow> assets_on_disk P w' m'"
    by simp_all
  have "k' = k + length (u # us)" using ih(1) st(1) by simp
  moreover have "storage w' = storage w" using ih(2) st(2) by simp
  moreover have "storage_up w' = storage_up w" using ih(3) st(3) by simp
  moreover have "errors w' = errors w" using ih(4) st(4) by simp
  moreover have "dirs w \<subseteq> dirs w'" using ih(5) st(5) by blast
  moreover have "files w \<subseteq> files w'" using ih(6) st(6) by blast
  moreover have "fst ` set m' \<subseteq> fst ` set m \<union> set (u # us)" using ih(7) st(7) by auto
  moreover have "assets_on_disk P w m \<longrightarrow> assets_on_disk P w' m'" using ih(8) st(8) by blast
  ultimately show ?case by blast
qed

lemma download_loop_inv:
  assumes "download_loop P n us (m, k, w) = (m', k', w')"
  shows "k' = k + length us"
    and "storage w' = storage w" and "storage_up w' = storage_up w"
    and "errors w' = errors w" and "dirs w \<subseteq> dirs w'" and "files w \<subseteq> files w'"
    and "fst ` set m' \<subseteq> fst ` set m \<union> set us"
    and "assets_on_disk P w m \<Longrightarrow> assets_on_disk P w' m'"
  using download_loop_inv_all [OF assms] by simp_all

lemma download_loop_distinct:
  "download_loop P n us (m, k, w) = (m', k', w') \<Longrightarrow> distinct (map fst m) \<Longrightarrow>
   distinct (map fst m')"
proof (induction us arbitrary: m k w)
  case Nil
  then show ?case by simp
next
  case (Cons u us)
  obtain m1 k1 w1 where s: "download_step P n u (m, k, w) = (m1, k1, w1)"
    by (cases "download_step P n u (m, k, w)")
  have l: "download_loop P n us (m1, k1, w1) = (m', k', w')"
    using Cons.prems(1) download_loop_Cons [OF s, of us] by simp
  show ?case
    by (rule Cons.IH [OF l download_step_distinct [OF s Cons.prems(2)]])
qed

lemma length_expected_outcomes: "length (expected_outcomes P present has_root c us) = length us"
  by (induction us arbitrary: present c) (simp_all split: prod.splits)

text \<open>
  The loop over URLs that are distinct, not empty and have no entry yet: one turn for
  each URL, in order, with the expected outcomes.
\<close>

lemma download_loop_turns:
  "download_loop P n us (m, k, w) = (m', k', w') \<Longrightarrow> distinct us \<Longrightarrow> [] \<notin> set us \<Longrightarrow>
   set us \<inter> fst ` set m = {} \<Longrightarrow> cacheInitialized w \<Longrightarrow> ticks w = c + 2 * k \<Longrightarrow>
   rs = expected_outcomes P (dirs w \<union> files w) (cacheDir P \<in> dirs w) (ticks w) us \<Longrightarrow>
   events w' = events w @ concat (map (turn_events P n c) (enumerate k (zip us rs))) \<and>
   warnings w' = warnings w @ failures (zip us rs) \<and>
   m' = m @ filter (\<lambda>e. fst e \<noteq> ''__proto__'') (successes (zip us rs))"
proof (induction us arbitrary: m k w rs)
  case Nil
  then show ?case by simp
next
  case (Cons u us)
  obtain m1 k1 w1 where s: "download_step P n u (m, k, w) = (m1, k1, w1)"
    by (cases "download_step P n u (m, k, w)")
  have l: "download_loop P n us (m1, k1, w1) = (m', k', w')"
    using Cons.prems(1) download_loop_Cons [OF s, of us] by simp
  have u: "u \<noteq> []" "u \<notin> fst ` set m" "u \<notin> set us" "distinct us" "[] \<notin> set us"
    using Cons.prems by auto
  from s u(1,2) Cons.prems(5,6) obtain r where r:
    "expected_outcome P (dirs w \<union> files w) (cacheDir P \<in> dirs w) (ticks w) u =
       (r, dirs w1 \<union> files w1)"
    "events w1 = events w @ turn_events P n c (k, u, r)"
    "warnings w1 = warnings w @ failures [(u, r)]"
    "m1 = m @ filter (\<lambda>e. fst e \<noteq> ''__proto__'') (successes [(u, r)])"
    "k1 = Suc k" "ticks w1 = c + 2 * Suc k" "cacheInitialized w1" "dirs w1 = dirs w"
    by (rule download_step_turn)
  define rs1 where
    "rs1 = expected_outcomes P (dirs w1 \<union> files w1) (cacheDir P \<in> dirs w1) (ticks w1) us"
  have t: "ticks w1 = ticks w + 2" using r(6) Cons.prems(6) by simp
  have rs: "rs = r # rs1"
    unfolding Cons.prems(7) rs1_def by (simp add: r(1) r(8) t)
  have "fst ` set m1 \<subseteq> insert u (fst ` set m)"
    using keys_successes [of "[(u, r)]"] by (auto simp: r(4))
  then have d: "set us \<inter> fst ` set m1 = {}" using u(3) Cons.prems(4) by auto
  have t1: "ticks w1 = c + 2 * k1" using r(5,6) by simp
  note ih = Cons.IH [OF l u(4,5) d r(7) t1 rs1_def]
  have "events w' =
      events w @ concat (map (turn_events P n c) (enumerate k (zip (u # us) rs)))"
    using ih r(2,5) by (simp add: rs)
  moreover have "warnings w' = warnings w @ failures (zip (u # us) rs)"
    using ih r(3) failures_Cons [of "(u, r)" "zip us rs1"] by (simp add: rs)
  moreover have "m' = m @ filter (\<lambda>e. fst e \<noteq> ''__proto__'') (successes (zip (u # us) rs))"
    using ih r(4) successes_Cons [of "(u, r)" "zip us rs1"] by (simp add: rs)
  ultimately show ?case by (intro conjI)
qed

lemma download_loop_new_files:
  "download_loop P n us (m, k, w) = (m', k', w') \<Longrightarrow>
   files w' \<subseteq> files w \<union> {p. directly_under (cacheDir P) p}"
proof (induction us arbitrary: m k w)
  case Nil
  then show ?case by simp
next
  case (Cons u us)
  obtain m1 k1 w1 where s: "download_step P n u (m, k, w) = (m1, k1, w1)"
    by (cases "download_step P n u (m, k, w)")
  have l: "download_loop P n us (m1, k1, w1) = (m', k', w')"
    using Cons.prems download_loop_Cons [OF s, of us] by simp
  show ?case
    using Cons.IH [OF l] download_step_new_files [OF s] by blast
qed

text \<open>The shape of a batch once the tour record has been fetched.\<close>

lemma downloadTourAssets_run:
  assumes "getTourDetails P tourId = Some t"
    and "download_loop P (length (collectAllAssetUrls t)) (collectAllAssetUrls t)
       ([], 0, onProgress \<lparr>total_n = length (collectAllAssetUrls t), downloaded = 0,
           currentFile = ''Starting download...'', percentage = 0\<rparr>
         (ensureCacheDirectoryExists P w)) = (m, k, w3)"
    and "cd = \<lparr>tourDetails = t, downloadedAt = toISOString P (date_now P (ticks w3)),
              localAssets = m\<rparr>"
  shows "downloadTourAssets P tourId w =
     (if storage_up w3
      then (Inr cd, w3\<lparr>ticks := Suc (ticks w3),
              storage := AList.update (cache_key tourId) (JSON_stringify P cd) (storage w3)\<rparr>)
      else (Inl StorageError, console_error StorageError (w3\<lparr>ticks := Suc (ticks w3)\<rparr>)))"
  using assms by (simp add: downloadTourAssets_def Let_def setItem_def)

lemma downloadTourAssets_None:
  "getTourDetails P tourId = None \<Longrightarrow> fst (downloadTourAssets P tourId w) = Inl FetchError"
  by (simp add: downloadTourAssets_def Let_def)

lemma events_after_batch:
  assumes "getTourDetails P tourId = Some t"
    and "download_loop P (length (collectAllAssetUrls t)) (collectAllAssetUrls t)
       ([], 0, onProgress \<lparr>total_n = length (collectAllAssetUrls t), downloaded = 0,
           currentFile = ''Starting download...'', percentage = 0\<rparr>
         (ensureCacheDirectoryExists P w)) = (m, k, w3)"
  shows "events (snd (downloadTourAssets P tourId w)) = events w3"
    and "dirs (snd (downloadTourAssets P tourId w)) = dirs w3"
    and "files (snd (downloadTourAssets P tourId w)) = files w3"
  by (simp_all add: downloadTourAssets_run [OF assms refl] console_error_def)

lemma downloadTourAssets_new_files:
  "files (snd (downloadTourAssets P tourId w)) \<subseteq> files w \<union> {p. directly_under (cacheDir P) p}"
proof (cases "getTourDetails P tourId")
  case None
  then show ?thesis by (simp add: downloadTourAssets_def Let_def console_error_def)
next
  case (Some t)
  let ?us = "collectAllAssetUrls t"
  let ?w2 = "onProgress \<lparr>total_n = length ?us, downloaded = 0,
      currentFile = ''Starting download...'', percentage = 0\<rparr> (ensureCacheDirectoryExists P w)"
  obtain m k w3 where l: "download_loop P (length ?us) ?us ([], 0, ?w2) = (m, k, w3)"
    by (cases "download_loop P (length ?us) ?us ([], 0, ?w2)")
  have "files w3 \<subseteq> files ?w2 \<union> {p. directly_under (cacheDir P) p}"
    by (rule download_loop_new_files [OF l])
  then show ?thesis
    by (simp add: events_after_batch(3) [OF Some l])
qed

text \<open>
  The turns of a batch: the loop starts after the first report, on an initialised
  instance and with an empty mapping.
\<close>

lemma downloadTourAssets_turns:
  assumes "getTourDetails P tourId = Some t"
  obtains m k w3 where
    "download_loop P (length (collectAllAssetUrls t)) (collectAllAssetUrls t)
       ([], 0, onProgress \<lparr>total_n = length (collectAllAssetUrls t), downloaded = 0,
           currentFile = ''Starting download...'', percentage = 0\<rparr>
         (ensureCacheDirectoryExists P w)) = (m, k, w3)"
    "events w3 = events w @
       Reported \<lparr>total_n = length (collectAllAssetUrls t), downloaded = 0,
         currentFile = ''Starting download...'', percentage = 0\<rparr> #
       concat (map (turn_events P (length (collectAllAssetUrls t)) (ticks w))
         (enumerate 0 (zip (collectAllAssetUrls t) (batch_outcomes P w (collectAllAssetUrls t)))))"
    "warnings w3 =
       warnings w @ failures (zip (collectAllAssetUrls t) (batch_outcomes P w (collectAllAssetUrls t)))"
    "m = filter (\<lambda>e. fst e \<noteq> ''__proto__'')
       (successes (zip (collectAllAssetUrls t) (batch_outcomes P w (collectAllAssetUrls t))))"
proof -
  let ?us = "collectAllAssetUrls t"
  let ?w2 = "onProgress \<lparr>total_n = length ?us, downloaded = 0,
      currentFile = ''Starting download...'', percentage = 0\<rparr> (ensureCacheDirectoryExists P w)"
  obtain m k w3 where l: "download_loop P (length ?us) ?us ([], 0, ?w2) = (m, k, w3)"
    by (cases "download_loop P (length ?us) ?us ([], 0, ?w2)")
  have i: "cacheInitialized ?w2" by simp
  have c: "ticks ?w2 = ticks w + 2 * 0" by simp
  have e: "set ?us \<inter> fst ` set ([] :: (url \<times> path) list) = {}" by simp
  have b: "batch_outcomes P w ?us =
      expected_outcomes P (dirs ?w2 \<union> files ?w2) (cacheDir P \<in> dirs ?w2) (ticks ?w2) ?us"
    by (simp add: batch_outcomes_def Let_def)
  note t = download_loop_turns [OF l distinct_collectAllAssetUrls collectAllAssetUrls_nonempty
      e i c b]
  show thesis
    using l t by (intro that [of m k w3]) simp_all
qed

lemma length_batch_outcomes: "length (batch_outcomes P w us) = length us"
  by (simp add: batch_outcomes_def Let_def length_expected_outcomes)

section \<open>The events of a batch\<close>

lemma reported_append: "reported (es @ fs) = reported es @ reported fs"
  by (induction es rule: reported.induct) simp_all

lemma attempted_turns:
  "attempted (concat (map (turn_events P n c) (enumerate k xs))) = xs"
  by (induction xs arbitrary: k) (auto simp: turn_events_def)

text \<open>The counts and percentages reported by the turns, whatever the outcomes.\<close>

lemma reports_of_turns:
  "map (\<lambda>p. (total_n p, downloaded p, percentage p))
     (reported (concat (map (turn_events P n c) (enumerate k xs)))) =
   concat (map (\<lambda>i. [(n, i, percentage_of i n), (n, Suc i, percentage_of (Suc i) n)])
     [k ..< k + length xs])"
proof (induction xs arbitrary: k)
  case Nil
  then show ?case by simp
next
  case (Cons x xs)
  have "[k ..< k + length (x # xs)] = k # [Suc k ..< k + length (x # xs)]"
    by (rule upt_conv_Cons) simp
  then have up: "[k ..< k + length (x # xs)] = k # [Suc k ..< Suc k + length xs]"
    by simp
  show ?case
    unfolding up using Cons.IH [of "Suc k"]
    by (cases x) (simp add: turn_events_def reported_append)
qed

lemma report_of_turn:
  assumes "p \<in> set (reported (concat (map (turn_events P n c) (enumerate k xs))))"
  shows "total_n p = n" and "downloaded p \<le> k + length xs"
    and "percentage p = percentage_of (downloaded p) n" and "xs \<noteq> []"
proof -
  let ?f = "\<lambda>p. (total_n p, downloaded p, percentage p)"
  have "?f p \<in> set (map ?f (reported (concat (map (turn_events P n c) (enumerate k xs)))))"
    using assms by auto
  then have "?f p \<in> set (concat (map (\<lambda>i. [(n, i, percentage_of i n),
      (n, Suc i, percentage_of (Suc i) n)]) [k ..< k + length xs]))"
    by (simp only: reports_of_turns)
  then obtain i where i: "k \<le> i" "i < k + length xs"
    "?f p = (n, i, percentage_of i n) \<or> ?f p = (n, Suc i, percentage_of (Suc i) n)"
    by auto
  from i(3) show "total_n p = n" by auto
  from i show "downloaded p \<le> k + length xs" by auto
  from i(3) show "percentage p = percentage_of (downloaded p) n" by auto
  from i(1,2) show "xs \<noteq> []" by auto
qed

lemma percentages_of_turns:
  "map percentage (reported (concat (map (turn_events P n c) (enumerate k xs)))) =
   concat (map (\<lambda>i. [percentage_of i n, percentage_of (Suc i) n]) [k ..< k + length xs])"
proof -
  let ?f = "\<lambda>p. (total_n p, downloaded p, percentage p)"
  let ?rs = "reported (concat (map (turn_events P n c) (enumerate k xs)))"
  have "map percentage ?rs = map (\<lambda>x. snd (snd x)) (map ?f ?rs)" by simp
  also have "\<dots> = concat (map (\<lambda>i. [percentage_of i n, percentage_of (Suc i) n])
      [k ..< k + length xs])"
    by (simp only: reports_of_turns) (simp add: map_concat comp_def)
  finally show ?thesis .
qed

lemma sorted_percentages:
  assumes "n < 2 ^ 32"
  shows "sorted (0 # concat (map (\<lambda>i. [percentage_of i n, percentage_of (Suc i) n]) [0 ..< n]))"
proof (cases "n = 0")
  case True
  then show ?thesis by simp
next
  case False
  then have n: "0 < n" by simp
  have m: "i \<le> j \<Longrightarrow> j \<le> n \<Longrightarrow> percentage_of i n \<le> percentage_of j n" for i j
    by (rule percentage_of_mono [OF _ _ n assms])
  have "sorted (concat (map (\<lambda>i. [percentage_of i n, percentage_of (Suc i) n]) [0 ..< 0 + n]))"
    by (rule sorted_before_after [where N = n, THEN conjunct1]) (simp_all add: m)
  moreover have "0 \<le> percentage_of i n" if "i \<le> n" for i
    using m [of 0 i] that by (simp add: percentage_of_zero)
  ultimately show ?thesis by auto
qed

section \<open>Clearing the cache\<close>

lemma map_of_filter_keys:
  "map_of (filter (\<lambda>kv. Q (fst kv)) al) k = (if Q k then map_of al k else None)"
  by (induction al) auto

lemma clearAllCache_storage:
  "storage (clearAllCache P w) =
     (if storage_up w then filter (\<lambda>kv. \<not> prefix ''cached_tour_'' (fst kv)) (storage w)
      else storage w)"
proof -
  have "filter (\<lambda>kv. fst kv \<notin> set (filter (prefix ''cached_tour_'') (map fst al))) al =
        filter (\<lambda>kv. \<not> prefix ''cached_tour_'' (fst kv)) al" for al :: "(string \<times> string) list"
    by (rule filter_cong) auto
  then show ?thesis
    by (simp add: clearAllCache_def getAllKeys_def multiRemove_def console_error_def
        deleteAsync_def Let_def)
qed

lemma clearAllCache_leaves_no_root:
  assumes "storage_up w"
  shows "\<not> path_exists (clearAllCache P w) (cacheDir P)"
    and "cacheInitialized (clearAllCache P w)"
    and "errors (clearAllCache P w) = errors w"
proof -
  let ?w1 = "ensureCacheDirectoryExists P w"
  let ?w2 = "?w1\<lparr>storage := filter (\<lambda>kv. fst kv \<notin> set (filter (prefix ''cached_tour_'')
      (map fst (storage ?w1)))) (storage ?w1)\<rparr>"
  let ?w3 = "if path_exists ?w2 (cacheDir P) then deleteAsync (cacheDir P) ?w2 else ?w2"
  have init: "cacheInitialized ?w3"
    by (simp add: deleteAsync_def)
  have ca: "clearAllCache P w = ensureCacheDirectoryExists P ?w3"
    using assms by (simp add: clearAllCache_def getAllKeys_def multiRemove_def Let_def)
  have eq: "clearAllCache P w = ?w3"
    unfolding ca by (rule ensure_initialized [OF init])
  show "\<not> path_exists (clearAllCache P w) (cacheDir P)"
    unfolding eq by (simp add: deleteAsync_removes)
  show "cacheInitialized (clearAllCache P w)"
    unfolding eq by (rule init)
  show "errors (clearAllCache P w) = errors w"
    unfolding eq by (simp add: deleteAsync_def)
qed

lemma clearTourCache_keeps:
  assumes "directly_under (cacheDir P) p" and "path_exists w p"
  shows "path_exists (clearTourCache P j w) p"
proof -
  let ?w1 = "ensureCacheDirectoryExists P w"
  have e: "path_exists ?w1 p"
    using assms(2) ensure_dirs [of w P] by (auto simp: path_exists_def)
  define d where "d = cacheDir P @ ''tour_'' @ decimal_of_nat j @ ''/''"
  have n: "\<not> prefix d p"
    unfolding d_def
    using directly_under_not_in_subdir [OF assms(1), of "''tour_'' @ decimal_of_nat j"] by simp
  have ct: "clearTourCache P j w =
      (if storage_up w
       then (if path_exists (?w1\<lparr>storage := AList.delete (cache_key j) (storage ?w1)\<rparr>) d
             then deleteAsync d (?w1\<lparr>storage := AList.delete (cache_key j) (storage ?w1)\<rparr>)
             else ?w1\<lparr>storage := AList.delete (cache_key j) (storage ?w1)\<rparr>)
       else console_error StorageError ?w1)"
    by (simp add: clearTourCache_def removeItem_def Let_def d_def)
  show ?thesis
    unfolding ct using e by (simp add: deleteAsync_keeps [OF n])
qed

lemma clearTourCache_keeps_file:
  assumes "directly_under (cacheDir P) p" and "p \<in> files w"
  shows "p \<in> files (clearTourCache P j w)"
proof -
  have n: "\<not> prefix (cacheDir P @ ''tour_'' @ decimal_of_nat j @ ''/'') p"
    using directly_under_not_in_subdir [OF assms(1), of "''tour_'' @ decimal_of_nat j"] by simp
  show ?thesis
    using assms(2) n
    by (simp add: clearTourCache_def removeItem_def console_error_def deleteAsync_def Let_def)
qed

lemma clearTourCache_assets:
  "assets_on_disk P w m \<Longrightarrow> assets_on_disk P (clearTourCache P j w) m"
  by (simp add: assets_on_disk_def list_all_iff clearTourCache_keeps)

lemma clearTourCache_removes_key:
  "storage_up w \<Longrightarrow> map_of (storage (clearTourCache P tourId w)) (cache_key tourId) = None"
  by (simp add: clearTourCache_def removeItem_def deleteAsync_def Let_def delete_conv')

section \<open>The batch on the concrete device\<close>

lemma demo_run: "downloadTourAssets demo_platform 7 fresh_world = (Inr demo_cached, demo_after)"
  by code_simp

section \<open>The claims\<close>

subsection \<open>C1: downloading the same URL twice\<close>

text \<open>
  C1. The claim: a second call of \<open>downloadFile\<close> with the same URL makes no second
  fetch and returns the same path. The code: the file name derived for a URL contains
  the reading of \<open>Date.now()\<close> and a random token, so the second call derives another
  local path, finds no file there, and fetches again. On the concrete device both calls
  answer 200; they return two different paths and the network is asked twice, although
  the file written by the first call is on disk.
\<close>

theorem downloadFile_twice_fetches_twice:
  "fst (downloadFile demo_platform ''h/t.png'' fresh_world) = Inr ''/d/tour_cache/t_50_012.png'' \<and>
   fst (downloadFile demo_platform ''h/t.png''
         (snd (downloadFile demo_platform ''h/t.png'' fresh_world))) =
     Inr ''/d/tour_cache/t_51_112.png'' \<and>
   fetched (snd (downloadFile demo_platform ''h/t.png'' fresh_world)) = [''h/t.png''] \<and>
   path_exists (snd (downloadFile demo_platform ''h/t.png'' fresh_world))
     ''/d/tour_cache/t_50_012.png'' \<and>
   fetched (snd (downloadFile demo_platform ''h/t.png''
         (snd (downloadFile demo_platform ''h/t.png'' fresh_world)))) =
     [''h/t.png'', ''h/t.png'']"
  by code_simp

subsection \<open>C2: clearing all caches\<close>

text \<open>
  C2. The claim: after \<open>clearAllCache\<close> the empty cache root exists again. The code:
  the first call of \<open>ensureCacheDirectoryExists\<close> in \<open>clearAllCache\<close> sets
  \<open>_cacheInitialized\<close>, so the call after the deletion returns at once and the root is
  not recreated (\<open>clearAllCache_leaves_no_root\<close> shows this for every state whose store
  is readable). On the concrete device, after a batch and \<open>clearAllCache\<close>: no error is
  logged, the store is empty, the root is absent, a download is rejected, and the next
  batch yields an empty mapping with every URL reported as failed.
\<close>

theorem clearAllCache_does_not_recreate_root:
  "errors (clearAllCache demo_platform demo_after) = [] \<and>
   storage (clearAllCache demo_platform demo_after) = [] \<and>
   cacheInitialized (clearAllCache demo_platform demo_after) \<and>
   \<not> path_exists (clearAllCache demo_platform demo_after) (cacheDir demo_platform) \<and>
   fst (downloadFile demo_platform ''h/t.png'' (clearAllCache demo_platform demo_after)) =
     Inl (DownloadRejected ''h/t.png'') \<and>
   fst (downloadTourAssets demo_platform 7 (clearAllCache demo_platform demo_after)) =
     Inr \<lparr>tourDetails = demo_tour, downloadedAt = ''59'', localAssets = []\<rparr> \<and>
   warnings (snd (downloadTourAssets demo_platform 7 (clearAllCache demo_platform demo_after))) =
     [''h/a.mp3'', ''h/t.png'', ''h/a.mp3'']"
  by code_simp

subsection \<open>C3: failed downloads do not abort the batch\<close>

text \<open>
  C3 (as amended). When the tour record has been fetched and the key-value store accepts
  the write, the batch returns a CachedTourData and raises nothing, whatever number of
  the downloads fail, and it persists the entry under the tour's key. The batch makes
  one download for every enumerated URL, in order, and their outcomes \<open>rs\<close> are the ones
  that the platform determines: a download returns its local path when the request
  answers 200 or a file is already there, and fails when the request is rejected or
  answers another status. The URLs reported by \<open>console.warn\<close> are those whose
  download failed. The mapping holds every URL whose download succeeded, with the path
  that the download returned, which exists in the cache root, and nothing else; only a
  URL spelled \<open>__proto__\<close> gets no entry. So for N URLs, none of them spelled
  \<open>__proto__\<close>, of which M fail, the mapping has N - M entries.
\<close>

theorem batch_keeps_successful_downloads:
  assumes "getTourDetails P tourId = Some t" and "storage_up w"
  shows "\<exists>cd w' rs.
     rs = batch_outcomes P w (collectAllAssetUrls t) \<and>
     downloadTourAssets P tourId w = (Inr cd, w') \<and> tourDetails cd = t \<and>
     map_of (storage w') (cache_key tourId) = Some (JSON_stringify P cd) \<and>
     attempted (drop (length (events w)) (events w')) = zip (collectAllAssetUrls t) rs \<and>
     warnings w' = warnings w @ failures (zip (collectAllAssetUrls t) rs) \<and>
     distinct (map fst (localAssets cd)) \<and>
     set (localAssets cd) =
       {e \<in> set (successes (zip (collectAllAssetUrls t) rs)). fst e \<noteq> ''__proto__''} \<and>
     assets_on_disk P w' (localAssets cd) \<and>
     (''__proto__'' \<notin> set (collectAllAssetUrls t) \<longrightarrow>
        length (localAssets cd) =
          length (collectAllAssetUrls t) - length (failures (zip (collectAllAssetUrls t) rs)))"
proof -
  let ?us = "collectAllAssetUrls t"
  let ?start = "\<lparr>total_n = length ?us, downloaded = 0, currentFile = ''Starting download...'',
      percentage = 0\<rparr>"
  define rs where "rs = batch_outcomes P w ?us"
  from assms(1) obtain m k w3 where
    l: "download_loop P (length ?us) ?us ([], 0, onProgress ?start (ensureCacheDirectoryExists P w))
          = (m, k, w3)"
    and ev: "events w3 = events w @ Reported ?start #
          concat (map (turn_events P (length ?us) (ticks w)) (enumerate 0 (zip ?us rs)))"
    and wa: "warnings w3 = warnings w @ failures (zip ?us rs)"
    and m: "m = filter (\<lambda>e. fst e \<noteq> ''__proto__'') (successes (zip ?us rs))"
    unfolding rs_def by (rule downloadTourAssets_turns)
  have len: "length rs = length ?us" by (simp add: rs_def length_batch_outcomes)
  define cd where "cd = \<lparr>tourDetails = t, downloadedAt = toISOString P (date_now P (ticks w3)),
      localAssets = m\<rparr>"
  define w' where "w' = w3\<lparr>ticks := Suc (ticks w3),
      storage := AList.update (cache_key tourId) (JSON_stringify P cd) (storage w3)\<rparr>"
  have up: "storage_up w3"
    using download_loop_inv(3) [OF l] assms(2) by simp
  have run: "downloadTourAssets P tourId w = (Inr cd, w')"
    using downloadTourAssets_run [OF assms(1) l cd_def] up by (simp add: w'_def)
  have c1: "tourDetails cd = t" and la: "localAssets cd = m" by (simp_all add: cd_def)
  have c2: "map_of (storage w') (cache_key tourId) = Some (JSON_stringify P cd)"
    by (simp add: w'_def update_conv')
  have "drop (length (events w)) (events w') = Reported ?start #
      concat (map (turn_events P (length ?us) (ticks w)) (enumerate 0 (zip ?us rs)))"
    by (simp add: w'_def ev)
  then have c3: "attempted (drop (length (events w)) (events w')) = zip ?us rs"
    by (simp add: attempted_turns)
  have "assets_on_disk P (onProgress ?start (ensureCacheDirectoryExists P w)) []"
    by (simp add: assets_on_disk_def)
  then have "assets_on_disk P w3 m" by (rule download_loop_inv(8) [OF l])
  then have c4: "assets_on_disk P w' (localAssets cd)"
    by (simp add: la w'_def assets_on_disk_def path_exists_def)
  have c5: "warnings w' = warnings w @ failures (zip ?us rs)"
    using wa by (simp add: w'_def)
  have c6: "distinct (map fst (localAssets cd))"
    unfolding la using download_loop_distinct [OF l] by simp
  have c7: "set (localAssets cd) = {e \<in> set (successes (zip ?us rs)). fst e \<noteq> ''__proto__''}"
    unfolding la m by simp
  have c8: "''__proto__'' \<notin> set ?us \<longrightarrow>
      length (localAssets cd) = length ?us - length (failures (zip ?us rs))"
  proof
    assume n: "''__proto__'' \<notin> set ?us"
    have "fst ` set (zip ?us rs) \<subseteq> set ?us" by (auto dest: set_zip_leftD)
    then have "fst ` set (successes (zip ?us rs)) \<subseteq> set ?us"
      using keys_successes [of "zip ?us rs"] by (rule subset_trans [rotated])
    then have "filter (\<lambda>e. fst e \<noteq> ''__proto__'') (successes (zip ?us rs)) = successes (zip ?us rs)"
      using n by (intro filter_True) auto
    then have "length (localAssets cd) = length (successes (zip ?us rs))"
      by (simp add: la m)
    then show "length (localAssets cd) = length ?us - length (failures (zip ?us rs))"
      using length_successes_failures [of "zip ?us rs"] len by simp
  qed
  show ?thesis
    using rs_def run c1 c2 c3 c5 c6 c7 c4 c8
    by (intro exI [of _ cd] exI [of _ w'] exI [of _ rs] conjI)
qed

theorem batch_keeps_successful_downloads_witness:
  "getTourDetails demo_platform 7 = Some demo_tour \<and> storage_up fresh_world \<and>
   downloadTourAssets demo_platform 7 fresh_world = (Inr demo_cached, demo_after) \<and>
   collectAllAssetUrls demo_tour = [''h/t.png'', ''h/a.mp3''] \<and>
   batch_outcomes demo_platform fresh_world [''h/t.png'', ''h/a.mp3''] =
     [Inr ''/d/tour_cache/t_51_112.png'', Inl (DownloadStatus ''h/a.mp3'' 404)] \<and>
   attempted (events demo_after) =
     [(''h/t.png'', Inr ''/d/tour_cache/t_51_112.png''),
      (''h/a.mp3'', Inl (DownloadStatus ''h/a.mp3'' 404))] \<and>
   warnings demo_after = [''h/a.mp3''] \<and>
   set (localAssets demo_cached) = {(''h/t.png'', ''/d/tour_cache/t_51_112.png'')} \<and>
   length (localAssets demo_cached) = 2 - 1 \<and>
   map_of (storage demo_after) (cache_key 7) = Some (JSON_stringify demo_platform demo_cached)"
proof -
  have a: "getTourDetails demo_platform 7 = Some demo_tour" by code_simp
  have b: "storage_up fresh_world" by code_simp
  have us: "collectAllAssetUrls demo_tour = [''h/t.png'', ''h/a.mp3'']" by code_simp
  have w1: "drop (length (events fresh_world)) (events demo_after) = events demo_after"
    by code_simp
  have w0: "warnings fresh_world = []" by code_simp
  have np: "''__proto__'' \<notin> set [''h/t.png'', ''h/a.mp3'']" by simp
  have bo: "batch_outcomes demo_platform fresh_world [''h/t.png'', ''h/a.mp3''] =
      [Inr ''/d/tour_cache/t_51_112.png'', Inl (DownloadStatus ''h/a.mp3'' 404)]" by code_simp
  from batch_keeps_successful_downloads [OF a b] obtain cd w' rs where
    rs: "rs = batch_outcomes demo_platform fresh_world (collectAllAssetUrls demo_tour)" and
    r: "downloadTourAssets demo_platform 7 fresh_world = (Inr cd, w')"
      "map_of (storage w') (cache_key 7) = Some (JSON_stringify demo_platform cd)"
      "attempted (drop (length (events fresh_world)) (events w')) =
         zip (collectAllAssetUrls demo_tour) rs"
      "warnings w' = warnings fresh_world @ failures (zip (collectAllAssetUrls demo_tour) rs)"
      "set (localAssets cd) =
         {e \<in> set (successes (zip (collectAllAssetUrls demo_tour) rs)). fst e \<noteq> ''__proto__''}"
      "''__proto__'' \<notin> set (collectAllAssetUrls demo_tour) \<longrightarrow>
         length (localAssets cd) = length (collectAllAssetUrls demo_tour) -
           length (failures (zip (collectAllAssetUrls demo_tour) rs))"
    by (elim exE conjE)
  have e: "cd = demo_cached" "w' = demo_after" using r(1) demo_run by simp_all
  have z: "zip (collectAllAssetUrls demo_tour) rs =
      [(''h/t.png'', Inr ''/d/tour_cache/t_51_112.png''),
       (''h/a.mp3'', Inl (DownloadStatus ''h/a.mp3'' 404))]"
    unfolding rs us bo by simp
  have at: "attempted (events demo_after) =
      [(''h/t.png'', Inr ''/d/tour_cache/t_51_112.png''),
       (''h/a.mp3'', Inl (DownloadStatus ''h/a.mp3'' 404))]"
    using r(3) unfolding e z w1 .
  have "warnings demo_after = [''h/a.mp3'']"
    using r(4) by (simp add: e z w0)
  moreover have "set (localAssets demo_cached) = {(''h/t.png'', ''/d/tour_cache/t_51_112.png'')}"
  proof -
    have "set (localAssets demo_cached) = set (filter (\<lambda>e. fst e \<noteq> ''__proto__'')
        (successes [(''h/t.png'', Inr ''/d/tour_cache/t_51_112.png''),
          (''h/a.mp3'', Inl (DownloadStatus ''h/a.mp3'' 404))]))"
      using r(5) unfolding e z by (simp only: set_filter)
    then show ?thesis by simp
  qed
  moreover have "length (localAssets demo_cached) = 2 - 1"
  proof -
    have "length (localAssets demo_cached) = length (collectAllAssetUrls demo_tour) -
        length (failures (zip (collectAllAssetUrls demo_tour) rs))"
      using r(6) np by (simp only: e us simp_thms)
    then show ?thesis unfolding z by (simp add: us)
  qed
  moreover have "map_of (storage demo_after) (cache_key 7) =
      Some (JSON_stringify demo_platform demo_cached)"
    using r(2) by (simp only: e)
  ultimately show ?thesis using a b us bo at demo_run by (intro conjI)
qed

text \<open>
  C3 as stated fails. When the key-value store rejects the write, the batch for tour 7
  raises the error of \<open>setItem\<close> and the store holds no entry, although the tour record
  was fetched and the downloads were made. And the batch for \<open>proto_tour\<close>, whose one
  URL is downloaded with success (N = 1, M = 0), returns an empty mapping.
\<close>

theorem batch_raises_when_store_rejects_counterexample:
  "fst (downloadTourAssets demo_platform 7 (fresh_world\<lparr>storage_up := False\<rparr>)) =
     Inl StorageError \<and>
   storage (snd (downloadTourAssets demo_platform 7 (fresh_world\<lparr>storage_up := False\<rparr>))) = [] \<and>
   attempted (events (snd (downloadTourAssets demo_platform 7
       (fresh_world\<lparr>storage_up := False\<rparr>)))) =
     [(''h/t.png'', Inr ''/d/tour_cache/t_51_112.png''),
      (''h/a.mp3'', Inl (DownloadStatus ''h/a.mp3'' 404))] \<and>
   collectAllAssetUrls proto_tour = [''__proto__''] \<and>
   attempted (events (snd (downloadTourAssets demo_platform 6 fresh_world))) =
     [(''__proto__'', Inr ''/d/tour_cache/__proto___51_112'')] \<and>
   warnings (snd (downloadTourAssets demo_platform 6 fresh_world)) = [] \<and>
   fst (downloadTourAssets demo_platform 6 fresh_world) =
     Inr \<lparr>tourDetails = proto_tour, downloadedAt = ''52'', localAssets = []\<rparr>"
  by code_simp

subsection \<open>C4: the URL collector\<close>

text \<open>
  C4 (as amended). The collector's result has no duplicates, and its elements are
  exactly the non-empty strings held by the URL-valued optional fields that are present
  in the record: every field is guarded by a truthiness test, which skips a missing
  field and also a field that holds the empty string.
\<close>

theorem collector_exact_nonempty_fields:
  "distinct (collectAllAssetUrls t) \<and>
   set (collectAllAssetUrls t) = {u \<in> present_url_fields t. u \<noteq> []}"
  by (simp add: distinct_collectAllAssetUrls set_collectAllAssetUrls)

theorem collector_exact_nonempty_fields_witness:
  "collectAllAssetUrls demo_tour = [''h/t.png'', ''h/a.mp3''] \<and>
   {u \<in> present_url_fields demo_tour. u \<noteq> []} = {''h/t.png'', ''h/a.mp3''}"
proof -
  have h: "collectAllAssetUrls demo_tour = [''h/t.png'', ''h/a.mp3'']" by code_simp
  have "{u \<in> present_url_fields demo_tour. u \<noteq> []} = set (collectAllAssetUrls demo_tour)"
    by (rule collector_exact_nonempty_fields [THEN conjunct2, symmetric])
  then show ?thesis by (simp only: h list.set simp_thms)
qed

text \<open>
  C4 as stated fails: in \<open>blank_tour\<close> the tour thumbnail is present and holds the
  empty string; the collector returns nothing, so the present field is dropped.
\<close>

theorem collector_drops_empty_string_counterexample:
  "set (collectAllAssetUrls blank_tour) \<noteq> present_url_fields blank_tour"
proof -
  have "collectAllAssetUrls blank_tour = []" by code_simp
  moreover have "[] \<in> present_url_fields blank_tour"
    by (simp add: present_url_fields_def blank_tour_def)
  ultimately show ?thesis by auto
qed

subsection \<open>C5: the freshness check\<close>

text \<open>
  C5. \<open>isTourCached\<close> answers true exactly when the store can be read, holds a
  non-empty string under the tour's key that parses to a CachedTourData with a valid
  \<open>downloadedAt\<close>, and the current time is strictly before that instant plus 24 hours.
  It leaves the store and the file system as they were. So an entry downloaded 23 hours
  ago is reported cached and one downloaded 25 hours ago is not.
\<close>

theorem isTourCached_iff_fresh_entry:
  "(fst (isTourCached P tourId w) \<longleftrightarrow>
      (\<exists>s d t. storage_up w \<and> map_of (storage w) (cache_key tourId) = Some s \<and> s \<noteq> [] \<and>
         JSON_parse P s = Some d \<and> Date_getTime P (downloadedAt d) = Some t \<and>
         date_now P (ticks w) < t + 24 * 60 * 60 * 1000)) \<and>
   storage (snd (isTourCached P tourId w)) = storage w \<and>
   dirs (snd (isTourCached P tourId w)) = dirs w \<and>
   files (snd (isTourCached P tourId w)) = files w \<and>
   (\<forall>s d t. storage_up w \<and> map_of (storage w) (cache_key tourId) = Some s \<and> s \<noteq> [] \<and>
         JSON_parse P s = Some d \<and> Date_getTime P (downloadedAt d) = Some t \<longrightarrow>
      (date_now P (ticks w) = t + 23 * 60 * 60 * 1000 \<longrightarrow> fst (isTourCached P tourId w)) \<and>
      (date_now P (ticks w) = t + 25 * 60 * 60 * 1000 \<longrightarrow> \<not> fst (isTourCached P tourId w)))"
  by (auto simp: isTourCached_def getItem_def console_error_def CACHE_EXPIRY_HOURS_def
      split: option.splits)

theorem isTourCached_iff_fresh_entry_witness:
  "fst (isTourCached demo_platform 7 (demo_after\<lparr>ticks := 10\<rparr>)) \<and>
   \<not> fst (isTourCached demo_platform 7 (demo_after\<lparr>ticks := 11\<rparr>)) \<and>
   storage (snd (isTourCached demo_platform 7 (demo_after\<lparr>ticks := 10\<rparr>))) =
     storage (demo_after\<lparr>ticks := 10\<rparr>)"
proof -
  let ?w23 = "demo_after\<lparr>ticks := 10\<rparr>" and ?w25 = "demo_after\<lparr>ticks := 11\<rparr>"
  have up: "storage_up ?w23" "storage_up ?w25" by code_simp+
  have entry: "map_of (storage ?w23) (cache_key 7) = Some ''{54}''"
    "map_of (storage ?w25) (cache_key 7) = Some ''{54}''" by code_simp+
  have ne: "''{54}'' \<noteq> []" by simp
  have parse: "JSON_parse demo_platform ''{54}'' = Some demo_cached" by code_simp
  have date: "Date_getTime demo_platform (downloadedAt demo_cached) = Some 54" by code_simp
  have now23: "date_now demo_platform (ticks ?w23) = 54 + 23 * 60 * 60 * 1000" by code_simp
  have now25: "date_now demo_platform (ticks ?w25) = 54 + 25 * 60 * 60 * 1000" by code_simp
  note t23 = isTourCached_iff_fresh_entry [of demo_platform 7 ?w23]
  note t25 = isTourCached_iff_fresh_entry [of demo_platform 7 ?w25]
  have "fst (isTourCached demo_platform 7 ?w23)"
    using t23 up(1) entry(1) ne parse date now23 by blast
  moreover have "\<not> fst (isTourCached demo_platform 7 ?w25)"
    using t25 up(2) entry(2) ne parse date now25 by blast
  moreover have "storage (snd (isTourCached demo_platform 7 ?w23)) = storage ?w23"
    using t23 by blast
  ultimately show ?thesis by (intro conjI)
qed

subsection \<open>C6: progress percentages\<close>

text \<open>
  C6 (as amended). During a batch the progress callback is invoked once at the start
  with percentage 0 and then, for every URL in order, before the download with the
  number of URLs done so far and after the attempt, whether it succeeded or failed,
  with that number incremented: the events that a batch adds are the first report
  followed by the events of its turns. The code computes a percentage in double
  arithmetic. For a batch of fewer than \<open>2 ^ 32\<close> URLs, the bound of the length of an
  array, every reported percentage is an integer nearest to \<open>downloaded / total * 100\<close>,
  and it is \<open>round(downloaded / total * 100)\<close> unless that number lies halfway between two
  integers. The percentages reported over the batch never decrease. For three URLs they
  are 0, 0, 33, 33, 67, 67, 100: the values 0, 33, 67, 100 in increasing order.
\<close>

theorem progress_reports_frame_each_download:
  assumes "getTourDetails P tourId = Some t" and "length (collectAllAssetUrls t) < 2 ^ 32"
  shows "\<exists>new.
     new = Reported \<lparr>total_n = length (collectAllAssetUrls t), downloaded = 0,
             currentFile = ''Starting download...'', percentage = 0\<rparr> #
           concat (map (turn_events P (length (collectAllAssetUrls t)) (ticks w))
             (enumerate 0
               (zip (collectAllAssetUrls t) (batch_outcomes P w (collectAllAssetUrls t))))) \<and>
     events (snd (downloadTourAssets P tourId w)) = events w @ new \<and>
     (\<forall>p \<in> set (reported new).
        total_n p = length (collectAllAssetUrls t) \<and>
        downloaded p \<le> length (collectAllAssetUrls t) \<and>
        \<bar>200 * int (downloaded p) - 2 * percentage p * int (length (collectAllAssetUrls t))\<bar>
          \<le> int (length (collectAllAssetUrls t)) \<and>
        (200 * int (downloaded p) mod (2 * int (length (collectAllAssetUrls t))) \<noteq>
            int (length (collectAllAssetUrls t)) \<longrightarrow>
           percentage p =
             round (real (downloaded p) / real (length (collectAllAssetUrls t)) * 100))) \<and>
     sorted (map percentage (reported new)) \<and>
     (length (collectAllAssetUrls t) = 3 \<longrightarrow>
        map percentage (reported new) = [0, 0, 33, 33, 67, 67, 100] \<and>
        remdups_adj (map percentage (reported new)) = [0, 33, 67, 100])"
proof -
  let ?us = "collectAllAssetUrls t"
  let ?n = "length ?us"
  let ?start = "\<lparr>total_n = ?n, downloaded = 0, currentFile = ''Starting download...'',
      percentage = 0\<rparr>"
  define rs where "rs = batch_outcomes P w ?us"
  from assms(1) obtain m k w3 where
    l: "download_loop P ?n ?us ([], 0, onProgress ?start (ensureCacheDirectoryExists P w))
          = (m, k, w3)"
    and ev: "events w3 = events w @ Reported ?start #
          concat (map (turn_events P ?n (ticks w)) (enumerate 0 (zip ?us rs)))"
    unfolding rs_def by (rule downloadTourAssets_turns)
  have len: "length rs = ?n" by (simp add: rs_def length_batch_outcomes)
  define turns where "turns = concat (map (turn_events P ?n (ticks w)) (enumerate 0 (zip ?us rs)))"
  define new where "new = Reported ?start # turns"
  have zl: "length (zip ?us rs) = ?n" using len by simp
  have e: "events (snd (downloadTourAssets P tourId w)) = events w @ new"
    using events_after_batch(1) [OF assms(1) l] ev by (simp add: new_def turns_def)
  have rep: "reported new = ?start # reported turns" by (simp add: new_def)
  have near: "total_n p = ?n \<and> downloaded p \<le> ?n \<and>
      \<bar>200 * int (downloaded p) - 2 * percentage p * int ?n\<bar> \<le> int ?n \<and>
      (200 * int (downloaded p) mod (2 * int ?n) \<noteq> int ?n \<longrightarrow>
         percentage p = round (real (downloaded p) / real ?n * 100))"
    if p: "p \<in> set (reported new)" for p
  proof (cases "p = ?start")
    case True
    then show ?thesis by simp
  next
    case False
    then have "p \<in> set (reported (concat (map (turn_events P ?n (ticks w))
        (enumerate 0 (zip ?us rs)))))"
      using p by (simp add: rep turns_def)
    note r = report_of_turn [OF this]
    have d: "downloaded p \<le> ?n" using r(2) zl by simp
    have n: "0 < ?n" using r(4) zl by auto
    have "\<bar>200 * int (downloaded p) - 2 * percentage_of (downloaded p) ?n * int ?n\<bar> \<le> int ?n"
      by (rule percentage_of_near [OF d n assms(2)])
    moreover have "200 * int (downloaded p) mod (2 * int ?n) \<noteq> int ?n \<longrightarrow>
        percentage_of (downloaded p) ?n = round (real (downloaded p) / real ?n * 100)"
      using percentage_of_round [OF d n assms(2)] by (rule impI)
    ultimately show ?thesis using r(1,3) d by simp
  qed
  have q: "map percentage (reported new) =
      0 # concat (map (\<lambda>i. [percentage_of i ?n, percentage_of (Suc i) ?n]) [0 ..< ?n])"
    using percentages_of_turns [of P ?n "ticks w" 0 "zip ?us rs"] zl
    by (simp add: rep turns_def)
  have s: "sorted (map percentage (reported new))"
    unfolding q by (rule sorted_percentages [OF assms(2)])
  have v: "0 # concat (map (\<lambda>i. [percentage_of i 3, percentage_of (Suc i) 3]) [0 ..< 3]) =
      [0, 0, 33, 33, 67, 67, 100]"
    by code_simp
  have three: "?n = 3 \<longrightarrow> map percentage (reported new) = [0, 0, 33, 33, 67, 67, 100] \<and>
      remdups_adj (map percentage (reported new)) = [0, 33, 67, 100]"
  proof
    assume n: "?n = 3"
    have "map percentage (reported new) =
        0 # concat (map (\<lambda>i. [percentage_of i ?n, percentage_of (Suc i) ?n]) [0 ..< ?n])"
      by (rule q)
    also have "\<dots> = 0 # concat (map (\<lambda>i. [percentage_of i 3, percentage_of (Suc i) 3]) [0 ..< 3])"
      by (simp only: n)
    also note v
    finally have e: "map percentage (reported new) = [0, 0, 33, 33, 67, 67, 100]" .
    have "remdups_adj [0, 0, 33, 33, 67, 67, 100 :: int] = [0, 33, 67, 100]" by simp
    then show "map percentage (reported new) = [0, 0, 33, 33, 67, 67, 100] \<and>
      remdups_adj (map percentage (reported new)) = [0, 33, 67, 100]"
      using e by (simp only: simp_thms)
  qed
  have all: "\<forall>p \<in> set (reported new).
      total_n p = ?n \<and> downloaded p \<le> ?n \<and>
      \<bar>200 * int (downloaded p) - 2 * percentage p * int ?n\<bar> \<le> int ?n \<and>
      (200 * int (downloaded p) mod (2 * int ?n) \<noteq> int ?n \<longrightarrow>
         percentage p = round (real (downloaded p) / real ?n * 100))"
    using near by (rule ballI)
  have nw: "new = Reported ?start #
      concat (map (turn_events P ?n (ticks w)) (enumerate 0 (zip ?us (batch_outcomes P w ?us))))"
    by (simp add: new_def turns_def rs_def)
  show ?thesis
    using nw e all s three by (intro exI [of _ new] conjI)
qed

theorem progress_reports_frame_each_download_witness:
  "getTourDetails demo_platform 8 = Some trio_tour \<and>
   length (collectAllAssetUrls trio_tour) = 3 \<and> (3::nat) < 2 ^ 32 \<and>
   events (snd (downloadTourAssets demo_platform 8 fresh_world)) =
     [Reported \<lparr>total_n = 3, downloaded = 0, currentFile = ''Starting download...'',
        percentage = 0\<rparr>,
      Reported \<lparr>total_n = 3, downloaded = 0, currentFile = ''x_50_012'', percentage = 0\<rparr>,
      Attempted ''h/x'' (Inr ''/d/tour_cache/x_51_112''),
      Reported \<lparr>total_n = 3, downloaded = 1, currentFile = ''Next file...'', percentage = 33\<rparr>,
      Reported \<lparr>total_n = 3, downloaded = 1, currentFile = ''y_52_212'', percentage = 33\<rparr>,
      Attempted ''h/y'' (Inr ''/d/tour_cache/y_53_312''),
      Reported \<lparr>total_n = 3, downloaded = 2, currentFile = ''Next file...'', percentage = 67\<rparr>,
      Reported \<lparr>total_n = 3, downloaded = 2, currentFile = ''z_54_412'', percentage = 67\<rparr>,
      Attempted ''h/z'' (Inr ''/d/tour_cache/z_55_512''),
      Reported \<lparr>total_n = 3, downloaded = 3, currentFile = ''Complete!'', percentage = 100\<rparr>] \<and>
   map percentage (reported (events (snd (downloadTourAssets demo_platform 8 fresh_world)))) =
     [0, 0, 33, 33, 67, 67, 100] \<and>
   200 * int 2 mod (2 * int 3) \<noteq> int 3 \<and>
   round (real 2 / real 3 * 100) = (67 :: int)"
proof -
  let ?p = "\<lparr>total_n = 3, downloaded = 2, currentFile = ''Next file...'', percentage = 67\<rparr>"
  let ?es = "[Reported \<lparr>total_n = 3, downloaded = 0, currentFile = ''Starting download...'',
        percentage = 0\<rparr>,
      Reported \<lparr>total_n = 3, downloaded = 0, currentFile = ''x_50_012'', percentage = 0\<rparr>,
      Attempted ''h/x'' (Inr ''/d/tour_cache/x_51_112''),
      Reported \<lparr>total_n = 3, downloaded = 1, currentFile = ''Next file...'', percentage = 33\<rparr>,
      Reported \<lparr>total_n = 3, downloaded = 1, currentFile = ''y_52_212'', percentage = 33\<rparr>,
      Attempted ''h/y'' (Inr ''/d/tour_cache/y_53_312''),
      Reported \<lparr>total_n = 3, downloaded = 2, currentFile = ''Next file...'', percentage = 67\<rparr>,
      Reported \<lparr>total_n = 3, downloaded = 2, currentFile = ''z_54_412'', percentage = 67\<rparr>,
      Attempted ''h/z'' (Inr ''/d/tour_cache/z_55_512''),
      Reported \<lparr>total_n = 3, downloaded = 3, currentFile = ''Complete!'', percentage = 100\<rparr>]"
  have a: "getTourDetails demo_platform 8 = Some trio_tour" by code_simp
  have b: "length (collectAllAssetUrls trio_tour) = 3" by code_simp
  have c: "(3::nat) < 2 ^ 32" by simp
  have c': "length (collectAllAssetUrls trio_tour) < 2 ^ 32" by (simp only: b c)
  have w0: "events fresh_world = []" by code_simp
  have nv: "Reported \<lparr>total_n = length (collectAllAssetUrls trio_tour), downloaded = 0,
        currentFile = ''Starting download...'', percentage = 0\<rparr> #
      concat (map (turn_events demo_platform (length (collectAllAssetUrls trio_tour))
        (ticks fresh_world))
        (enumerate 0 (zip (collectAllAssetUrls trio_tour)
          (batch_outcomes demo_platform fresh_world (collectAllAssetUrls trio_tour))))) = ?es"
    by code_simp
  have tie: "200 * int 2 mod (2 * int 3) \<noteq> int 3" by simp
  from progress_reports_frame_each_download [OF a c', of fresh_world]
  obtain new where
    r: "new = Reported \<lparr>total_n = length (collectAllAssetUrls trio_tour), downloaded = 0,
        currentFile = ''Starting download...'', percentage = 0\<rparr> #
      concat (map (turn_events demo_platform (length (collectAllAssetUrls trio_tour))
        (ticks fresh_world))
        (enumerate 0 (zip (collectAllAssetUrls trio_tour)
          (batch_outcomes demo_platform fresh_world (collectAllAssetUrls trio_tour)))))"
    "events (snd (downloadTourAssets demo_platform 8 fresh_world)) = events fresh_world @ new"
    "\<forall>p \<in> set (reported new).
        total_n p = length (collectAllAssetUrls trio_tour) \<and>
        downloaded p \<le> length (collectAllAssetUrls trio_tour) \<and>
        \<bar>200 * int (downloaded p) -
            2 * percentage p * int (length (collectAllAssetUrls trio_tour))\<bar>
          \<le> int (length (collectAllAssetUrls trio_tour)) \<and>
        (200 * int (downloaded p) mod (2 * int (length (collectAllAssetUrls trio_tour))) \<noteq>
            int (length (collectAllAssetUrls trio_tour)) \<longrightarrow>
           percentage p =
             round (real (downloaded p) / real (length (collectAllAssetUrls trio_tour)) * 100))"
    "length (collectAllAssetUrls trio_tour) = 3 \<longrightarrow>
       map percentage (reported new) = [0, 0, 33, 33, 67, 67, 100] \<and>
       remdups_adj (map percentage (reported new)) = [0, 33, 67, 100]"
    by (elim exE conjE)
  have new: "new = ?es" using r(1) nv by (rule trans)
  have e: "events (snd (downloadTourAssets demo_platform 8 fresh_world)) = ?es"
    using r(2) by (simp only: w0 new append_Nil)
  have "map percentage (reported new) = [0, 0, 33, 33, 67, 67, 100]"
    using r(4) b by (simp only: simp_thms)
  then have m: "map percentage (reported (events (snd (downloadTourAssets demo_platform 8
      fresh_world)))) = [0, 0, 33, 33, 67, 67, 100]"
    by (simp only: e new)
  have "?p \<in> set (reported new)" unfolding new by simp
  with r(3) have "200 * int (downloaded ?p) mod (2 * int (length (collectAllAssetUrls trio_tour)))
        \<noteq> int (length (collectAllAssetUrls trio_tour)) \<longrightarrow>
      percentage ?p =
        round (real (downloaded ?p) / real (length (collectAllAssetUrls trio_tour)) * 100)"
    by blast
  then have "200 * int 2 mod (2 * int 3) \<noteq> int 3 \<longrightarrow>
      (67 :: int) = round (real 2 / real 3 * 100)"
    unfolding b by simp
  then have rd: "round (real 2 / real 3 * 100) = (67 :: int)"
    using tie by (simp only: simp_thms)
  show ?thesis using a b c e m tie rd by (intro conjI)
qed

text \<open>
  C6 as stated fails. The batch for \<open>wide_tour\<close> has 40 URLs. Its two reports with 23
  URLs done, the one after turn 22 and the one before turn 23, carry the percentage 57,
  whereas \<open>round(23 / 40 * 100)\<close> is 58: the double nearest to 23 / 40 lies below it, and
  its product with 100 is rounded to 57.49999999999999.
\<close>

theorem half_percent_reported_low_counterexample:
  "length (collectAllAssetUrls wide_tour) = 40 \<and>
   map percentage (filter (\<lambda>p. downloaded p = 23)
     (reported (events (snd (downloadTourAssets demo_platform 40 fresh_world))))) = [57, 57] \<and>
   round (real 23 / real 40 * 100) = (58 :: int)"
proof -
  let ?f = "\<lambda>p. (total_n p, downloaded p, percentage p)"
  let ?start = "\<lparr>total_n = 40, downloaded = 0, currentFile = ''Starting download...'',
      percentage = 0\<rparr>"
  have a: "getTourDetails demo_platform 40 = Some wide_tour" by code_simp
  have n: "length (collectAllAssetUrls wide_tour) = 40" by code_simp
  have w0: "events fresh_world = []" by code_simp
  define rs where "rs = batch_outcomes demo_platform fresh_world (collectAllAssetUrls wide_tour)"
  from a obtain m k w3 where
    l: "download_loop demo_platform (length (collectAllAssetUrls wide_tour))
          (collectAllAssetUrls wide_tour)
          ([], 0, onProgress \<lparr>total_n = length (collectAllAssetUrls wide_tour), downloaded = 0,
             currentFile = ''Starting download...'', percentage = 0\<rparr>
           (ensureCacheDirectoryExists demo_platform fresh_world)) = (m, k, w3)"
    and ev: "events w3 = events fresh_world @
          Reported \<lparr>total_n = length (collectAllAssetUrls wide_tour), downloaded = 0,
            currentFile = ''Starting download...'', percentage = 0\<rparr> #
          concat (map (turn_events demo_platform (length (collectAllAssetUrls wide_tour))
            (ticks fresh_world)) (enumerate 0 (zip (collectAllAssetUrls wide_tour) rs)))"
    unfolding rs_def by (rule downloadTourAssets_turns)
  have len: "length rs = length (collectAllAssetUrls wide_tour)"
    by (simp add: rs_def length_batch_outcomes)
  define ps where
    "ps = reported (events (snd (downloadTourAssets demo_platform 40 fresh_world)))"
  have "events (snd (downloadTourAssets demo_platform 40 fresh_world)) = events w3"
    by (rule events_after_batch(1) [OF a l])
  then have "ps = ?start # reported (concat (map (turn_events demo_platform 40
      (ticks fresh_world)) (enumerate 0 (zip (collectAllAssetUrls wide_tour) rs))))"
    unfolding ps_def ev n w0 by simp
  then have "map ?f ps = (40, 0, 0) # concat (map (\<lambda>i. [(40, i, percentage_of i 40),
      (40, Suc i, percentage_of (Suc i) 40)])
      [0 ..< 0 + length (zip (collectAllAssetUrls wide_tour) rs)])"
    by (simp add: reports_of_turns)
  then have mp: "map ?f ps = (40, 0, 0) # concat (map (\<lambda>i. [(40, i, percentage_of i 40),
      (40, Suc i, percentage_of (Suc i) 40)]) [0 ..< 40])"
    using len n by simp
  have "map percentage (filter (\<lambda>p. downloaded p = 23) ps) =
      map (\<lambda>x. snd (snd x)) (filter (\<lambda>x. fst (snd x) = 23) (map ?f ps))"
    by (simp add: filter_map comp_def)
  also have "\<dots> = [57, 57]"
    unfolding mp by code_simp
  finally have "map percentage (filter (\<lambda>p. downloaded p = 23) ps) = [57, 57]" .
  moreover have "round (real 23 / real 40 * 100) = (58 :: int)"
    by (simp add: round_def)
  ultimately show ?thesis using n unfolding ps_def by (intro conjI)
qed

subsection \<open>C7: the keys of the mapping\<close>

text \<open>
  C7. Every key of the \<open>localAssets\<close> mapping of a CachedTourData that
  \<open>downloadTourAssets\<close> returns is one of the URLs that \<open>collectAllAssetUrls\<close>
  enumerates for the tour record stored in it.
\<close>

theorem localAssets_keys_enumerated:
  assumes "downloadTourAssets P tourId w = (Inr cd, w')"
  shows "fst ` set (localAssets cd) \<subseteq> set (collectAllAssetUrls (tourDetails cd))"
proof (cases "getTourDetails P tourId")
  case None
  then show ?thesis using assms downloadTourAssets_None [of P tourId w] by simp
next
  case (Some t)
  let ?us = "collectAllAssetUrls t"
  let ?w2 = "onProgress \<lparr>total_n = length ?us, downloaded = 0,
      currentFile = ''Starting download...'', percentage = 0\<rparr> (ensureCacheDirectoryExists P w)"
  obtain m k w3 where l: "download_loop P (length ?us) ?us ([], 0, ?w2) = (m, k, w3)"
    by (cases "download_loop P (length ?us) ?us ([], 0, ?w2)")
  let ?cd = "\<lparr>tourDetails = t, downloadedAt = toISOString P (date_now P (ticks w3)),
      localAssets = m\<rparr>"
  note run = downloadTourAssets_run [OF Some l refl]
  have cd: "tourDetails cd = t \<and> localAssets cd = m"
  proof (cases "storage_up w3")
    case True
    have "fst (downloadTourAssets P tourId w) = Inr ?cd"
      by (simp only: run True if_True fst_conv)
    moreover have "fst (downloadTourAssets P tourId w) = Inr cd"
      by (simp only: assms fst_conv)
    ultimately have "cd = ?cd" by (simp only: sum.inject)
    then show ?thesis by simp
  next
    case False
    have "fst (downloadTourAssets P tourId w) = Inl StorageError"
      by (simp only: run False if_False fst_conv)
    moreover have "fst (downloadTourAssets P tourId w) = Inr cd"
      by (simp only: assms fst_conv)
    ultimately show ?thesis by simp
  qed
  have "fst ` set m \<subseteq> set ?us"
    using download_loop_inv(7) [OF l] by simp
  then show ?thesis using cd by simp
qed

theorem localAssets_keys_enumerated_witness:
  "downloadTourAssets demo_platform 7 fresh_world = (Inr demo_cached, demo_after) \<and>
   fst ` set (localAssets demo_cached) \<subseteq> set (collectAllAssetUrls (tourDetails demo_cached))"
  using localAssets_keys_enumerated [OF demo_run] demo_run by (rule conjI [rotated])

subsection \<open>C8: unreadable entries\<close>

text \<open>
  C8. When the store cannot be read, or the string stored under the tour's key is
  malformed JSON, \<open>isTourCached\<close> answers false and \<open>getCachedTourData\<close> answers null;
  both return a value: the error is caught inside them.
\<close>

theorem unreadable_entry_is_cache_miss:
  assumes "\<not> storage_up w \<or>
     (\<exists>s. map_of (storage w) (cache_key tourId) = Some s \<and> JSON_parse P s = None)"
  shows "\<not> fst (isTourCached P tourId w) \<and> fst (getCachedTourData P tourId w) = None"
  using assms
  by (auto simp: isTourCached_def getCachedTourData_def getItem_def split: option.splits)

theorem unreadable_entry_is_cache_miss_witness:
  "\<not> storage_up (demo_after\<lparr>storage_up := False\<rparr>) \<and>
   \<not> fst (isTourCached demo_platform 7 (demo_after\<lparr>storage_up := False\<rparr>)) \<and>
   fst (getCachedTourData demo_platform 7 (demo_after\<lparr>storage_up := False\<rparr>)) = None \<and>
   map_of (storage shared_store) (cache_key 12) = Some ''{bad'' \<and>
   JSON_parse demo_platform ''{bad'' = None \<and>
   \<not> fst (isTourCached demo_platform 12 shared_store) \<and>
   fst (getCachedTourData demo_platform 12 shared_store) = None"
proof -
  have down: "\<not> storage_up (demo_after\<lparr>storage_up := False\<rparr>)" by code_simp
  have entry: "map_of (storage shared_store) (cache_key 12) = Some ''{bad''" by code_simp
  have parse: "JSON_parse demo_platform ''{bad'' = None" by code_simp
  note t1 = unreadable_entry_is_cache_miss [of "demo_after\<lparr>storage_up := False\<rparr>" 7 demo_platform]
  note t2 = unreadable_entry_is_cache_miss [of shared_store 12 demo_platform]
  have "\<not> fst (isTourCached demo_platform 7 (demo_after\<lparr>storage_up := False\<rparr>)) \<and>
        fst (getCachedTourData demo_platform 7 (demo_after\<lparr>storage_up := False\<rparr>)) = None"
    using t1 down by blast
  moreover have "\<not> fst (isTourCached demo_platform 12 shared_store) \<and>
        fst (getCachedTourData demo_platform 12 shared_store) = None"
    using t2 entry parse by blast
  ultimately show ?thesis using down entry parse by (intro conjI) blast+
qed

subsection \<open>C9: clearing one tour leaves its files\<close>

text \<open>
  C9. Every file that \<open>downloadTourAssets\<close> writes, and every local path that it
  records in the mapping, lies directly in the cache root \<open>tour_cache/\<close>, in no
  subdirectory of it. \<open>clearTourCache\<close>, for the same or any other tour identifier,
  removes the tour's key from the store, and leaves all these files on disk.
\<close>

theorem clearTourCache_keeps_downloaded_files:
  assumes "downloadTourAssets P tourId w = (Inr cd, w')"
  shows "files w' - files w \<subseteq> {p. directly_under (cacheDir P) p} \<and>
         files w' - files w \<subseteq> files (clearTourCache P j w') \<and>
         assets_on_disk P w' (localAssets cd) \<and>
         assets_on_disk P (clearTourCache P j w') (localAssets cd) \<and>
         map_of (storage (clearTourCache P tourId w')) (cache_key tourId) = None"
proof (cases "getTourDetails P tourId")
  case None
  then show ?thesis using assms downloadTourAssets_None [of P tourId w] by simp
next
  case (Some t)
  let ?us = "collectAllAssetUrls t"
  let ?w2 = "onProgress \<lparr>total_n = length ?us, downloaded = 0,
      currentFile = ''Starting download...'', percentage = 0\<rparr> (ensureCacheDirectoryExists P w)"
  obtain m k w3 where l: "download_loop P (length ?us) ?us ([], 0, ?w2) = (m, k, w3)"
    by (cases "download_loop P (length ?us) ?us ([], 0, ?w2)")
  note run = downloadTourAssets_run [OF Some l refl]
  have up: "storage_up w3"
  proof (rule ccontr)
    assume "\<not> storage_up w3"
    then have "fst (downloadTourAssets P tourId w) = Inl StorageError"
      by (simp only: run if_False fst_conv)
    moreover have "fst (downloadTourAssets P tourId w) = Inr cd"
      by (simp only: assms fst_conv)
    ultimately show False by simp
  qed
  have run': "downloadTourAssets P tourId w =
      (Inr \<lparr>tourDetails = t, downloadedAt = toISOString P (date_now P (ticks w3)),
             localAssets = m\<rparr>,
       w3\<lparr>ticks := Suc (ticks w3),
          storage := AList.update (cache_key tourId)
            (JSON_stringify P \<lparr>tourDetails = t,
               downloadedAt = toISOString P (date_now P (ticks w3)), localAssets = m\<rparr>)
            (storage w3)\<rparr>)"
    using run by (simp only: up if_True)
  have "fst (downloadTourAssets P tourId w) = Inr cd" "snd (downloadTourAssets P tourId w) = w'"
    by (simp_all only: assms fst_conv snd_conv)
  then have cd: "localAssets cd = m"
    and w': "dirs w' = dirs w3" "files w' = files w3" "storage_up w'"
    using up by (auto simp: run')
  have "assets_on_disk P ?w2 []" by (simp add: assets_on_disk_def)
  then have "assets_on_disk P w3 m" by (rule download_loop_inv(8) [OF l])
  then have a: "assets_on_disk P w' (localAssets cd)"
    using cd w'(1,2) by (simp add: assets_on_disk_def path_exists_def)
  have "files (snd (downloadTourAssets P tourId w)) \<subseteq>
      files w \<union> {p. directly_under (cacheDir P) p}"
    by (rule downloadTourAssets_new_files)
  then have f: "files w' - files w \<subseteq> {p. directly_under (cacheDir P) p}"
    by (auto simp: assms)
  have g: "files w' - files w \<subseteq> files (clearTourCache P j w')"
    using f clearTourCache_keeps_file [of P _ w' j] by blast
  show ?thesis
    using f g a clearTourCache_assets [OF a] clearTourCache_removes_key [OF w'(3)]
    by (intro conjI)
qed

theorem clearTourCache_keeps_downloaded_files_witness:
  "downloadTourAssets demo_platform 7 fresh_world = (Inr demo_cached, demo_after) \<and>
   localAssets demo_cached = [(''h/t.png'', ''/d/tour_cache/t_51_112.png'')] \<and>
   directly_under (cacheDir demo_platform) ''/d/tour_cache/t_51_112.png'' \<and>
   path_exists (clearTourCache demo_platform 7 demo_after) ''/d/tour_cache/t_51_112.png'' \<and>
   map_of (storage (clearTourCache demo_platform 7 demo_after)) (cache_key 7) = None"
proof -
  have m: "localAssets demo_cached = [(''h/t.png'', ''/d/tour_cache/t_51_112.png'')]"
    by code_simp
  note t = clearTourCache_keeps_downloaded_files [OF demo_run, of 7]
  have "assets_on_disk demo_platform (clearTourCache demo_platform 7 demo_after)
      [(''h/t.png'', ''/d/tour_cache/t_51_112.png'')]"
    using t by (simp only: m)
  then have "directly_under (cacheDir demo_platform) ''/d/tour_cache/t_51_112.png'' \<and>
      path_exists (clearTourCache demo_platform 7 demo_after) ''/d/tour_cache/t_51_112.png''"
    by (simp add: assets_on_disk_def)
  moreover have "map_of (storage (clearTourCache demo_platform 7 demo_after)) (cache_key 7) = None"
    using t by (elim conjE)
  ultimately show ?thesis
    using demo_run m by (simp only: simp_thms)
qed

subsection \<open>C10: clearing all caches leaves other keys\<close>

text \<open>
  C10. \<open>clearAllCache\<close> removes from the key-value store the entries whose key starts
  with \<open>cached_tour_\<close> and no other: afterwards such a key has no value and every other
  key has the value it had before (when the store rejects its calls, nothing is removed).
\<close>

theorem clearAllCache_removes_only_tour_keys:
  "storage (clearAllCache P w) =
     (if storage_up w then filter (\<lambda>kv. \<not> prefix ''cached_tour_'' (fst kv)) (storage w)
      else storage w) \<and>
   map_of (storage (clearAllCache P w)) k =
     (if storage_up w \<and> prefix ''cached_tour_'' k then None else map_of (storage w) k)"
  using map_of_filter_keys [of "\<lambda>x. \<not> prefix ''cached_tour_'' x" "storage w" k]
  by (simp add: clearAllCache_storage)

theorem clearAllCache_removes_only_tour_keys_witness:
  "storage (clearAllCache demo_platform shared_store) =
     [(''access_token'', ''a''), (''refresh_token'', ''r''), (''user'', ''u'')] \<and>
   map_of (storage (clearAllCache demo_platform shared_store)) ''cached_tour_7'' = None \<and>
   map_of (storage (clearAllCache demo_platform shared_store)) ''access_token'' = Some ''a''"
proof -
  have a: "storage_up shared_store" by code_simp
  have b: "filter (\<lambda>kv. \<not> prefix ''cached_tour_'' (fst kv)) (storage shared_store) =
      [(''access_token'', ''a''), (''refresh_token'', ''r''), (''user'', ''u'')]"
    by code_simp
  have c: "prefix ''cached_tour_'' ''cached_tour_7''" "\<not> prefix ''cached_tour_'' ''access_token''"
    by code_simp+
  have d: "map_of (storage shared_store) ''access_token'' = Some ''a''" by code_simp
  note t1 = clearAllCache_removes_only_tour_keys [of demo_platform shared_store "''cached_tour_7''"]
  note t2 = clearAllCache_removes_only_tour_keys [of demo_platform shared_store "''access_token''"]
  have "storage (clearAllCache demo_platform shared_store) =
      [(''access_token'', ''a''), (''refresh_token'', ''r''), (''user'', ''u'')]"
    using t1 [THEN conjunct1] by (simp only: a b if_True)
  moreover have "map_of (storage (clearAllCache demo_platform shared_store)) ''cached_tour_7'' = None"
    using t1 [THEN conjunct2] by (simp only: a c if_True simp_thms)
  moreover have "map_of (storage (clearAllCache demo_platform shared_store)) ''access_token'' = Some ''a''"
    using t2 [THEN conjunct2] by (simp only: a c d if_False simp_thms)
  ultimately show ?thesis by (intro conjI)
qed

end

